theory Spec2Isabelle
  imports Main
begin

section \<open>Find in files: query compilation and match extraction\<close>

text \<open>
  The module under verification is \<^verbatim>\<open>src/search/FindInFiles.js\<close>. Its logic lives in three
  functions: \<^verbatim>\<open>_getQueryRegExp\<close> (query string to RegExp object), \<^verbatim>\<open>_getSearchMatches\<close>
  (text and RegExp object to a list of located matches) and \<^verbatim>\<open>doFindInFiles\<close> (the fan-out
  over the project's files). All three lean on the regular expressions and string methods of
  the JavaScript runtime, so the development starts with a model of those, for a fragment of
  the pattern language, and then embeds the three functions over it.

  Strings are lists of \<^typ>\<open>char\<close>; a character stands for one code unit in the range
  from 0 to 255, the Latin-1 range of the runtime's strings.
\<close>

subsection \<open>Errors\<close>

text \<open>
  \<^verbatim>\<open>SyntaxError\<close> and \<^verbatim>\<open>TypeError\<close> are the runtime's exceptions. \<open>OutsideFragment\<close> marks a
  pattern whose syntax the model of the pattern language below does not cover; nothing is
  claimed about such patterns.
\<close>

datatype error = SyntaxError | TypeError | OutsideFragment

subsection \<open>Characters\<close>

abbreviation bslash :: char where
  "bslash \<equiv> CHR 0x5C"

abbreviation newline :: char where
  "newline \<equiv> CHR 0x0A"

text \<open>
  The letters that have a counterpart of the other case among the code units up to 255: the
  26 letters of ASCII and the 30 accented letters of Latin-1 from 0xE0 to 0xFE (0xF7, the
  division sign, is not a letter), whose capitals lie 0x20 below. The upper-case forms of
  0xB5, 0xDF and 0xFF are not single code units up to 255 (0x39C, the two letters SS and
  0x178), and no other code unit up to 255 has the same one, so for comparing code units up
  to 255 these three stand for themselves.
\<close>

definition lower_latin1 :: string where
  "lower_latin1 =
     ''abcdefghijklmnopqrstuvwxyz'' @
     [CHR 0xE0, CHR 0xE1, CHR 0xE2, CHR 0xE3, CHR 0xE4, CHR 0xE5, CHR 0xE6, CHR 0xE7,
           CHR 0xE8, CHR 0xE9, CHR 0xEA, CHR 0xEB, CHR 0xEC, CHR 0xED, CHR 0xEE, CHR 0xEF,
           CHR 0xF0, CHR 0xF1, CHR 0xF2, CHR 0xF3, CHR 0xF4, CHR 0xF5, CHR 0xF6, CHR 0xF8,
           CHR 0xF9, CHR 0xFA, CHR 0xFB, CHR 0xFC, CHR 0xFD, CHR 0xFE]"

definition upper_latin1 :: string where
  "upper_latin1 =
     ''ABCDEFGHIJKLMNOPQRSTUVWXYZ'' @
     [CHR 0xC0, CHR 0xC1, CHR 0xC2, CHR 0xC3, CHR 0xC4, CHR 0xC5, CHR 0xC6, CHR 0xC7,
           CHR 0xC8, CHR 0xC9, CHR 0xCA, CHR 0xCB, CHR 0xCC, CHR 0xCD, CHR 0xCE, CHR 0xCF,
           CHR 0xD0, CHR 0xD1, CHR 0xD2, CHR 0xD3, CHR 0xD4, CHR 0xD5, CHR 0xD6, CHR 0xD8,
           CHR 0xD9, CHR 0xDA, CHR 0xDB, CHR 0xDC, CHR 0xDD, CHR 0xDE]"

text \<open>\<^verbatim>\<open>String.prototype.toUpperCase\<close> on one code unit, as far as the result is again one code
  unit up to 255, and its inverse on the capitals.\<close>

definition toUpperCase_char :: "char \<Rightarrow> char" where
  "toUpperCase_char c =
     (case map_of (zip lower_latin1 upper_latin1) c of
        Some u \<Rightarrow> u
      | None \<Rightarrow> c)"

definition toLowerCase_char :: "char \<Rightarrow> char" where
  "toLowerCase_char c =
     (case map_of (zip upper_latin1 lower_latin1) c of
        Some l \<Rightarrow> l
      | None \<Rightarrow> c)"

text \<open>The pattern semantics compares characters after \<open>Canonicalize\<close>: upper-cased when the
  \<^verbatim>\<open>ignoreCase\<close> flag is set, unchanged otherwise.\<close>

definition canonicalize :: "bool \<Rightarrow> char \<Rightarrow> char" where
  "canonicalize ic c = (if ic then toUpperCase_char c else c)"

definition isLineTerminator :: "char \<Rightarrow> bool" where
  "isLineTerminator c = (c = newline \<or> c = CHR 0x0D)"

subsection \<open>Patterns\<close>

text \<open>
  The abstract syntax of the fragment: the empty pattern, a pattern character, the dot, a
  bracketed class (negated or not, as a list of inclusive ranges), the assertions \<^verbatim>\<open>^\<close> and
  \<^verbatim>\<open>$\<close>, sequence, alternative, the greedy quantifiers \<^verbatim>\<open>*\<close> and \<^verbatim>\<open>?\<close>, and a numbered
  capturing group. \<^verbatim>\<open>r+\<close> is \<open>Seq r (Star r)\<close>.
\<close>

datatype regex =
    Empty
  | Chr char
  | Dot
  | CharClass bool "(char \<times> char) list"
  | Bol
  | Eol
  | Seq regex regex
  | Alt regex regex
  | Star regex
  | Opt regex
  | Group nat regex

fun groups :: "regex \<Rightarrow> nat list" where
  "groups (Seq a b) = groups a @ groups b"
| "groups (Alt a b) = groups a @ groups b"
| "groups (Star r) = groups r"
| "groups (Opt r) = groups r"
| "groups (Group n r) = n # groups r"
| "groups _ = []"

type_synonym captures = "nat \<Rightarrow> (nat \<times> nat) option"

type_synonym mstate = "nat \<times> captures"

definition clear :: "nat list \<Rightarrow> captures \<Rightarrow> captures" where
  "clear gs cap = (\<lambda>k. if k \<in> set gs then None else cap k)"

definition in_range :: "char \<Rightarrow> char \<times> char \<Rightarrow> bool" where
  "in_range c r = ((of_char (fst r) :: nat) \<le> of_char c \<and> (of_char c :: nat) \<le> of_char (snd r))"

text \<open>A character belongs to a class when some member of the class has the same canonical
  form. The code units with the canonical form of \<open>c\<close> are \<open>c\<close> and its two case variants.\<close>

definition class_member :: "bool \<Rightarrow> (char \<times> char) list \<Rightarrow> char \<Rightarrow> bool" where
  "class_member ic rs c =
     list_ex (\<lambda>r. in_range c r \<or>
                  (ic \<and> (in_range (toUpperCase_char c) r \<or> in_range (toLowerCase_char c) r))) rs"

text \<open>
  The backtracking matcher, as the list of the states in which a match of the pattern that
  starts in the given state can end, in the order in which backtracking tries them. A state
  is the position in the input and the captures. A quantified pattern resets the captures of
  its groups at every iteration, and an iteration of \<^verbatim>\<open>*\<close> that consumes nothing is rejected.
  The arguments are: \<^verbatim>\<open>ignoreCase\<close>, \<^verbatim>\<open>multiline\<close>, the pattern, the input, the state.
\<close>

function (sequential) ms :: "bool \<Rightarrow> bool \<Rightarrow> regex \<Rightarrow> string \<Rightarrow> mstate \<Rightarrow> mstate list" where
  "ms ic ml Empty s st = [st]"
| "ms ic ml (Chr c) s (i, cap) =
     (if i < length s \<and> canonicalize ic (s ! i) = canonicalize ic c then [(Suc i, cap)] else [])"
| "ms ic ml Dot s (i, cap) =
     (if i < length s \<and> \<not> isLineTerminator (s ! i) then [(Suc i, cap)] else [])"
| "ms ic ml (CharClass neg rs) s (i, cap) =
     (if i < length s \<and> (class_member ic rs (s ! i) \<noteq> neg) then [(Suc i, cap)] else [])"
| "ms ic ml Bol s (i, cap) =
     (if i = 0 \<or> (ml \<and> i \<le> length s \<and> isLineTerminator (s ! (i - 1))) then [(i, cap)] else [])"
| "ms ic ml Eol s (i, cap) =
     (if i = length s \<or> (ml \<and> i < length s \<and> isLineTerminator (s ! i)) then [(i, cap)] else [])"
| "ms ic ml (Seq a b) s st = concat (map (ms ic ml b s) (ms ic ml a s st))"
| "ms ic ml (Alt a b) s st = ms ic ml a s st @ ms ic ml b s st"
| "ms ic ml (Group n r) s (i, cap) =
     map (\<lambda>(e, c). (e, c(n \<mapsto> (i, e)))) (ms ic ml r s (i, cap))"
| "ms ic ml (Opt r) s (i, cap) =
     filter (\<lambda>(e, c). e \<noteq> i) (ms ic ml r s (i, clear (groups r) cap)) @ [(i, cap)]"
| "ms ic ml (Star r) s (i, cap) =
     concat (map (\<lambda>(e, c). if i < e \<and> e \<le> length s then ms ic ml (Star r) s (e, c) else [])
                 (ms ic ml r s (i, clear (groups r) cap)))
     @ [(i, cap)]"
  by pat_completeness auto
termination
  by (relation "measures [\<lambda>(ic, ml, r, s, st). size r, \<lambda>(ic, ml, r, s, st). length s - fst st]")
    auto

text \<open>The equation of \<^verbatim>\<open>*\<close> mentions itself under a binder, so it is unfolded by hand.\<close>

lemmas ms_Star = ms.simps(11)

declare ms.simps(11) [simp del]

text \<open>A match never moves backwards and never leaves the input.\<close>

lemma ms_bounds:
  "(e, c) \<in> set (ms ic ml r s (i, cap)) \<Longrightarrow> i \<le> e \<and> (i \<le> length s \<longrightarrow> e \<le> length s)"
proof (induction ic ml r s "(i, cap)" arbitrary: i cap e c rule: ms.induct)
  case (1 ic ml s) then show ?case by simp
next
  case (2 ic ml c s i cap) then show ?case by (simp split: if_splits)
next
  case (3 ic ml s i cap) then show ?case by (simp split: if_splits)
next
  case (4 ic ml neg rs s i cap) then show ?case by (simp split: if_splits)
next
  case (5 ic ml s i cap) then show ?case by (simp split: if_splits)
next
  case (6 ic ml s i cap) then show ?case by (simp split: if_splits)
next
  case (7 ic ml a b s)
  from 7(3) obtain e' c' where m: "(e', c') \<in> set (ms ic ml a s (i, cap))"
     and n: "(e, c) \<in> set (ms ic ml b s (e', c'))" by auto
  from 7(1)[OF m] 7(2)[OF m n] show ?case by auto
next
  case (8 ic ml a b s)
  then show ?case by auto
next
  case (9 ic ml n r s i cap)
  then show ?case by auto
next
  case (10 ic ml r s i cap)
  then show ?case by auto
next
  case (11 ic ml r s i cap)
  from 11(3) consider "e = i"
    | e' c' where "(e', c') \<in> set (ms ic ml r s (i, clear (groups r) cap))"
        "i < e'" "e' \<le> length s" "(e, c) \<in> set (ms ic ml (Star r) s (e', c'))"
    by (auto simp: ms_Star[of _ _ _ _ i] split: if_splits)
  then show ?case
  proof cases
    case 1 then show ?thesis by simp
  next
    case 2
    from 11(2)[OF 2(1) _ _ 2(4)] 2 show ?thesis by auto
  qed
qed

subsection \<open>Parsing a pattern\<close>

text \<open>
  The pattern text is read one character at a time by a machine with a stack of open groups.
  A frame holds the number of its group (0 for the whole pattern), the alternatives already
  closed and the terms of the alternative being read, latest first. A term remembers whether
  a quantifier may follow it.
\<close>

datatype term_kind = Atom | Assertion | Quantified

record frame =
  gnum :: nat
  alts :: "regex list"
  terms :: "(term_kind \<times> regex) list"

datatype class_item = CChar char | CRanges "(char \<times> char) list" | CDash

datatype mode =
    Normal
  | Escape
  | ClassStart
  | Class bool "class_item list"
  | ClassEscape bool "class_item list"

record pstate =
  mode :: mode
  cur :: frame
  stack :: "frame list"
  ngroups :: nat

definition seq_of :: "regex list \<Rightarrow> regex" where
  "seq_of rs = foldr Seq rs Empty"

fun alt_of :: "regex list \<Rightarrow> regex" where
  "alt_of [] = Empty"
| "alt_of [a] = a"
| "alt_of (a # as) = Alt a (alt_of as)"

definition close_frame :: "frame \<Rightarrow> regex" where
  "close_frame f = alt_of (rev (seq_of (rev (map snd (terms f))) # alts f))"

definition push :: "term_kind \<Rightarrow> regex \<Rightarrow> pstate \<Rightarrow> pstate" where
  "push k r st = st\<lparr>mode := Normal, cur := (cur st)\<lparr>terms := (k, r) # terms (cur st)\<rparr>\<rparr>"

definition digit_ranges :: "(char \<times> char) list" where
  "digit_ranges = [(CHR ''0'', CHR ''9'')]"

definition word_ranges :: "(char \<times> char) list" where
  "word_ranges = [(CHR ''a'', CHR ''z''), (CHR ''A'', CHR ''Z''), (CHR ''0'', CHR ''9''),
                  (CHR ''_'', CHR ''_'')]"

definition space_ranges :: "(char \<times> char) list" where
  "space_ranges = [(CHR 0x09, CHR 0x0D), (CHR 0x20, CHR 0x20), (CHR 0xA0, CHR 0xA0)]"

definition isAlnum :: "char \<Rightarrow> bool" where
  "isAlnum c = list_ex (in_range c) [(CHR ''a'', CHR ''z''), (CHR ''A'', CHR ''Z''),
                                     (CHR ''0'', CHR ''9'')]"

text \<open>The control escapes \<^verbatim>\<open>\f \n \r \t \v\<close>.\<close>

definition control_escape :: "char \<Rightarrow> char option" where
  "control_escape c =
     map_of [(CHR ''f'', CHR 0x0C), (CHR ''n'', newline), (CHR ''r'', CHR 0x0D),
             (CHR ''t'', CHR 0x09), (CHR ''v'', CHR 0x0B)] c"

text \<open>The character class escapes \<^verbatim>\<open>\d \D \s \S \w \W\<close>.\<close>

definition class_escape :: "char \<Rightarrow> (bool \<times> (char \<times> char) list) option" where
  "class_escape c =
     map_of [(CHR ''d'', (False, digit_ranges)), (CHR ''D'', (True, digit_ranges)),
             (CHR ''s'', (False, space_ranges)), (CHR ''S'', (True, space_ranges)),
             (CHR ''w'', (False, word_ranges)), (CHR ''W'', (True, word_ranges))] c"

text \<open>The atom that a backslash and the character \<open>c\<close> denote outside a class. A character
  that is neither a letter nor a digit stands for itself.\<close>

definition atom_escape :: "char \<Rightarrow> error + regex" where
  "atom_escape c =
     (case control_escape c of
        Some k \<Rightarrow> Inr (Chr k)
      | None \<Rightarrow>
         (case class_escape c of
            Some (neg, rs) \<Rightarrow> Inr (CharClass neg rs)
          | None \<Rightarrow> if isAlnum c then Inl OutsideFragment else Inr (Chr c)))"

definition class_atom_escape :: "char \<Rightarrow> error + class_item" where
  "class_atom_escape c =
     (case control_escape c of
        Some k \<Rightarrow> Inr (CChar k)
      | None \<Rightarrow>
         (case class_escape c of
            Some (neg, rs) \<Rightarrow> if neg then Inl OutsideFragment else Inr (CRanges rs)
          | None \<Rightarrow> if isAlnum c then Inl OutsideFragment else Inr (CChar c)))"

text \<open>
  The ranges of a class from its items in reading order. An item followed by a dash and a
  further item makes the range between the two, and reading goes on after it; any other
  item is a member by itself. A dash that is not escaped is an item like any other
  character, so it can be an end of a range (\<^verbatim>\<open>[+--]\<close>, \<^verbatim>\<open>[--a]\<close>) or a member
  (\<^verbatim>\<open>[a-]\<close>, \<^verbatim>\<open>[-a]\<close>). A range whose ends are out of order is a SyntaxError; one with
  a class escape as an end is outside the fragment.
\<close>

fun item_char :: "class_item \<Rightarrow> char option" where
  "item_char (CChar c) = Some c"
| "item_char CDash = Some CHR ''-''"
| "item_char (CRanges r) = None"

fun class_ranges :: "class_item list \<Rightarrow> error + (char \<times> char) list" where
  "class_ranges [] = Inr []"
| "class_ranges (a # CDash # b # is) =
     (case (item_char a, item_char b) of
        (Some x, Some y) \<Rightarrow>
          if (of_char x :: nat) \<le> of_char y
          then (case class_ranges is of Inl e \<Rightarrow> Inl e | Inr rs \<Rightarrow> Inr ((x, y) # rs))
          else Inl SyntaxError
      | _ \<Rightarrow> Inl OutsideFragment)"
| "class_ranges (a # is) =
     (case class_ranges is of
        Inl e \<Rightarrow> Inl e
      | Inr rs \<Rightarrow>
         (case a of
            CChar c \<Rightarrow> Inr ((c, c) # rs)
          | CRanges r \<Rightarrow> Inr (r @ rs)
          | CDash \<Rightarrow> Inr ((CHR ''-'', CHR ''-'') # rs)))"

text \<open>A quantifier applies to the latest term, which must be an atom. A question mark after
  a quantifier would make it lazy, and one that opens a group introduces a non-capturing
  group or a lookahead: both are outside the fragment.\<close>

definition quantified :: "char \<Rightarrow> regex \<Rightarrow> regex" where
  "quantified q r =
     (if q = CHR ''*'' then Star r else if q = CHR ''+'' then Seq r (Star r) else Opt r)"

definition quantify :: "char \<Rightarrow> pstate \<Rightarrow> error + pstate" where
  "quantify q st =
     (case terms (cur st) of
        [] \<Rightarrow>
          if q = CHR ''?'' \<and> gnum (cur st) \<noteq> 0 \<and> alts (cur st) = []
          then Inl OutsideFragment else Inl SyntaxError
      | (Atom, r) # ts \<Rightarrow>
          Inr (st\<lparr>cur := (cur st)\<lparr>terms := (Quantified, quantified q r) # ts\<rparr>\<rparr>)
      | (Assertion, r) # ts \<Rightarrow> Inl SyntaxError
      | (Quantified, r) # ts \<Rightarrow>
          if q = CHR ''?'' then Inl OutsideFragment else Inl SyntaxError)"

definition parse_normal :: "char \<Rightarrow> pstate \<Rightarrow> error + pstate" where
  "parse_normal c st =
     (if c = bslash then Inr (st\<lparr>mode := Escape\<rparr>)
      else if c = CHR ''('' then
        Inr (st\<lparr>cur := \<lparr>gnum = Suc (ngroups st), alts = [], terms = []\<rparr>,
                 stack := cur st # stack st, ngroups := Suc (ngroups st)\<rparr>)
      else if c = CHR '')'' then
        (case stack st of
           [] \<Rightarrow> Inl SyntaxError
         | p # ps \<Rightarrow>
            Inr (push Atom (Group (gnum (cur st)) (close_frame (cur st)))
                   (st\<lparr>cur := p, stack := ps\<rparr>)))
      else if c = CHR ''|'' then
        Inr (st\<lparr>cur := (cur st)\<lparr>alts := seq_of (rev (map snd (terms (cur st)))) # alts (cur st),
                                 terms := []\<rparr>\<rparr>)
      else if c = CHR ''*'' \<or> c = CHR ''+'' \<or> c = CHR ''?'' then quantify c st
      else if c = CHR ''.'' then Inr (push Atom Dot st)
      else if c = CHR ''^'' then Inr (push Assertion Bol st)
      else if c = CHR ''$'' then Inr (push Assertion Eol st)
      else if c = CHR ''['' then Inr (st\<lparr>mode := ClassStart\<rparr>)
      else if c = CHR '']'' \<or> c = CHR ''{'' \<or> c = CHR ''}'' then Inl OutsideFragment
      else Inr (push Atom (Chr c) st))"

definition parse_class :: "bool \<Rightarrow> class_item list \<Rightarrow> char \<Rightarrow> pstate \<Rightarrow> error + pstate" where
  "parse_class neg items c st =
     (if c = CHR '']'' then
        (case class_ranges (rev items) of
           Inl e \<Rightarrow> Inl e
         | Inr rs \<Rightarrow> Inr (push Atom (CharClass neg rs) st))
      else if c = bslash then Inr (st\<lparr>mode := ClassEscape neg items\<rparr>)
      else if c = CHR ''-'' then Inr (st\<lparr>mode := Class neg (CDash # items)\<rparr>)
      else Inr (st\<lparr>mode := Class neg (CChar c # items)\<rparr>))"

definition parse_step :: "char \<Rightarrow> pstate \<Rightarrow> error + pstate" where
  "parse_step c st =
     (case mode st of
        Normal \<Rightarrow> parse_normal c st
      | Escape \<Rightarrow>
         (case atom_escape c of Inl e \<Rightarrow> Inl e | Inr a \<Rightarrow> Inr (push Atom a st))
      | ClassStart \<Rightarrow>
         if c = CHR ''^'' then Inr (st\<lparr>mode := Class True []\<rparr>) else parse_class False [] c st
      | Class neg items \<Rightarrow> parse_class neg items c st
      | ClassEscape neg items \<Rightarrow>
         (case class_atom_escape c of
            Inl e \<Rightarrow> Inl e
          | Inr a \<Rightarrow> Inr (st\<lparr>mode := Class neg (a # items)\<rparr>)))"

fun parse_chars :: "string \<Rightarrow> pstate \<Rightarrow> error + pstate" where
  "parse_chars [] st = Inr st"
| "parse_chars (c # cs) st =
     (case parse_step c st of Inl e \<Rightarrow> Inl e | Inr st' \<Rightarrow> parse_chars cs st')"

definition initial_pstate :: pstate where
  "initial_pstate =
     \<lparr>mode = Normal, cur = \<lparr>gnum = 0, alts = [], terms = []\<rparr>, stack = [], ngroups = 0\<rparr>"

text \<open>At the end of the text every group and class must be closed and no backslash pending.\<close>

definition parse_pattern :: "string \<Rightarrow> error + regex" where
  "parse_pattern p =
     (case parse_chars p initial_pstate of
        Inl e \<Rightarrow> Inl e
      | Inr st \<Rightarrow>
         if mode st = Normal \<and> stack st = [] then Inr (close_frame (cur st))
         else Inl SyntaxError)"

subsection \<open>RegExp objects\<close>

text \<open>A RegExp object: the pattern text, its parsed form, the three flags and the mutable
  \<^verbatim>\<open>lastIndex\<close> property.\<close>

record regexp =
  source :: string
  pattern :: regex
  global :: bool
  ignoreCase :: bool
  multiline :: bool
  lastIndex :: nat

text \<open>\<^verbatim>\<open>new RegExp(pattern, flags)\<close>: a SyntaxError when the flags contain a character other
  than \<^verbatim>\<open>g\<close>, \<^verbatim>\<open>i\<close>, \<^verbatim>\<open>m\<close> or one of them twice, or when the pattern does not
  parse.\<close>

definition new_RegExp :: "string \<Rightarrow> string \<Rightarrow> error + regexp" where
  "new_RegExp p flags =
     (if \<not> (list_all (\<lambda>c. c \<in> set ''gim'') flags \<and> distinct flags) then Inl SyntaxError
      else
        (case parse_pattern p of
           Inl e \<Rightarrow> Inl e
         | Inr r \<Rightarrow>
            Inr \<lparr>source = p, pattern = r,
                 global = (CHR ''g'' \<in> set flags),
                 ignoreCase = (CHR ''i'' \<in> set flags),
                 multiline = (CHR ''m'' \<in> set flags),
                 lastIndex = 0\<rparr>))"

text \<open>The result of a successful match: where it starts, the matched text (element 0 of the
  result array) and the texts of the captures (elements 1, 2, ...; \<open>None\<close> is
  \<^verbatim>\<open>undefined\<close>).\<close>

record match_result =
  index :: nat
  matched :: string
  capture :: "nat \<Rightarrow> string option"

definition substring :: "string \<Rightarrow> nat \<Rightarrow> nat \<Rightarrow> string" where
  "substring s a b = take (b - a) (drop a s)"

definition result_of :: "string \<Rightarrow> nat \<Rightarrow> mstate \<Rightarrow> match_result" where
  "result_of s i st =
     \<lparr>index = i, matched = substring s i (fst st),
      capture = (\<lambda>k. map_option (\<lambda>(a, b). substring s a b) (snd st k))\<rparr>"

text \<open>The matches of the pattern of an object that start at position \<open>i\<close>, from no
  captures.\<close>

definition matches_at :: "regexp \<Rightarrow> string \<Rightarrow> nat \<Rightarrow> mstate list" where
  "matches_at re s i = ms (ignoreCase re) (multiline re) (pattern re) s (i, Map.empty)"

text \<open>The first position at or after \<open>i\<close> where the pattern matches, with the state in which
  the first successful alternative ends; \<open>None\<close> when the positions up to the end of the
  input are exhausted.\<close>

function match_from :: "regexp \<Rightarrow> string \<Rightarrow> nat \<Rightarrow> (nat \<times> mstate) option" where
  "match_from re s i =
     (if length s < i then None
      else
        (case matches_at re s i of
           [] \<Rightarrow> match_from re s (Suc i)
         | st # _ \<Rightarrow> Some (i, st)))"
  by pat_completeness auto
termination
  by (relation "measure (\<lambda>(re, s, i). Suc (length s) - i)") auto

declare match_from.simps [simp del]

lemma match_from_Some:
  "match_from re s i = Some (j, st) \<Longrightarrow>
     i \<le> j \<and> j \<le> length s \<and> (\<exists>rest. matches_at re s j = st # rest) \<and>
     (\<forall>k. i \<le> k \<and> k < j \<longrightarrow> matches_at re s k = [])"
proof (induction re s i rule: match_from.induct)
  case (1 re s i)
  show ?case
  proof (cases "matches_at re s i")
    case Nil
    with 1(2) have le: "\<not> length s < i" and nxt: "match_from re s (Suc i) = Some (j, st)"
      by (auto simp: match_from.simps[of re s i] split: if_splits)
    from 1(1)[OF le Nil nxt] have
      "Suc i \<le> j \<and> j \<le> length s \<and> (\<exists>rest. matches_at re s j = st # rest) \<and>
       (\<forall>k. Suc i \<le> k \<and> k < j \<longrightarrow> matches_at re s k = [])" .
    with Nil show ?thesis
      by (metis Suc_leD Suc_leI le_neq_implies_less)
  next
    case (Cons a as)
    with 1(2) show ?thesis
      by (auto simp: match_from.simps[of re s i] split: if_splits)
  qed
qed

lemma match_from_None:
  "match_from re s i = None \<Longrightarrow> i \<le> k \<Longrightarrow> k \<le> length s \<Longrightarrow> matches_at re s k = []"
proof (induction re s i rule: match_from.induct)
  case (1 re s i)
  from 1(2,3,4) have le: "\<not> length s < i" by simp
  show ?case
  proof (cases "matches_at re s i")
    case Nil
    with 1(2) le have nxt: "match_from re s (Suc i) = None"
      by (auto simp: match_from.simps[of re s i] split: if_splits)
    show ?thesis
    proof (cases "k = i")
      case True with Nil show ?thesis by simp
    next
      case False
      with 1(3) have "Suc i \<le> k" by simp
      from 1(1)[OF le Nil nxt this 1(4)] show ?thesis .
    qed
  next
    case (Cons a as)
    with 1(2) le show ?thesis
      by (auto simp: match_from.simps[of re s i] split: if_splits)
  qed
qed

lemma match_from_None_iff:
  "match_from re s i = None \<longleftrightarrow> (\<forall>k. i \<le> k \<and> k \<le> length s \<longrightarrow> matches_at re s k = [])"
proof
  assume "match_from re s i = None"
  then show "\<forall>k. i \<le> k \<and> k \<le> length s \<longrightarrow> matches_at re s k = []"
    using match_from_None by blast
next
  assume a: "\<forall>k. i \<le> k \<and> k \<le> length s \<longrightarrow> matches_at re s k = []"
  show "match_from re s i = None"
  proof (rule ccontr)
    assume "match_from re s i \<noteq> None"
    then obtain j st where "match_from re s i = Some (j, st)" by auto
    from match_from_Some[OF this] a show False by auto
  qed
qed

lemma match_from_bounds:
  "match_from re s i = Some (j, (e, c)) \<Longrightarrow> i \<le> j \<and> j \<le> e \<and> e \<le> length s"
proof -
  assume a: "match_from re s i = Some (j, (e, c))"
  from match_from_Some[OF a] obtain rest where
    "i \<le> j" "j \<le> length s" "matches_at re s j = (e, c) # rest" by auto
  with ms_bounds[of e c "ignoreCase re" "multiline re" "pattern re" s j Map.empty]
  show ?thesis by (simp add: matches_at_def)
qed

text \<open>\<^verbatim>\<open>RegExp.prototype.exec\<close>: a global pattern starts at \<^verbatim>\<open>lastIndex\<close> and leaves the end
  of the match there; any other starts at 0 and leaves \<^verbatim>\<open>lastIndex\<close> alone. A failed search
  resets \<^verbatim>\<open>lastIndex\<close> to 0. The updated object is returned with the result.\<close>

definition exec :: "regexp \<Rightarrow> string \<Rightarrow> regexp \<times> match_result option" where
  "exec re s =
     (case match_from re s (if global re then lastIndex re else 0) of
        None \<Rightarrow> (re\<lparr>lastIndex := 0\<rparr>, None)
      | Some (i, st) \<Rightarrow>
         ((if global re then re\<lparr>lastIndex := fst st\<rparr> else re), Some (result_of s i st)))"

text \<open>\<^verbatim>\<open>String.prototype.search\<close>: the index of the first match or -1; \<^verbatim>\<open>lastIndex\<close> and
  \<^verbatim>\<open>global\<close> are ignored and \<^verbatim>\<open>lastIndex\<close> is left unchanged.\<close>

definition search :: "string \<Rightarrow> regexp \<Rightarrow> int" where
  "search s re = (case match_from re s 0 of None \<Rightarrow> -1 | Some (i, st) \<Rightarrow> int i)"

text \<open>\<^verbatim>\<open>String.prototype.match\<close> with a pattern that is not global is \<^verbatim>\<open>exec\<close>.\<close>

definition str_match :: "string \<Rightarrow> regexp \<Rightarrow> match_result option" where
  "str_match s re = snd (exec re s)"

text \<open>\<open>r\<close> is a result that \<^verbatim>\<open>exec\<close> can give for the pattern on the input: the first
  successful alternative of the pattern at some position.\<close>

definition is_match :: "regexp \<Rightarrow> string \<Rightarrow> match_result \<Rightarrow> bool" where
  "is_match re s r =
     (\<exists>i st rest. i \<le> length s \<and> matches_at re s i = st # rest \<and> r = result_of s i st)"

text \<open>Two objects that differ in \<^verbatim>\<open>lastIndex\<close> at most.\<close>

definition same_pattern :: "regexp \<Rightarrow> regexp \<Rightarrow> bool" where
  "same_pattern q q' =
     (source q' = source q \<and> pattern q' = pattern q \<and> global q' = global q \<and>
      ignoreCase q' = ignoreCase q \<and> multiline q' = multiline q)"

lemma same_pattern_refl [simp]: "same_pattern q q"
  by (simp add: same_pattern_def)

lemma same_pattern_trans: "same_pattern a b \<Longrightarrow> same_pattern b c \<Longrightarrow> same_pattern a c"
  by (simp add: same_pattern_def)

lemma same_pattern_matches_at: "same_pattern q q' \<Longrightarrow> matches_at q' = matches_at q"
  by (auto simp: same_pattern_def matches_at_def fun_eq_iff)

lemma same_pattern_is_match: "same_pattern q q' \<Longrightarrow> is_match q' = is_match q"
  by (simp add: is_match_def fun_eq_iff same_pattern_matches_at)

lemma exec_result:
  "exec q c = (q', Some r) \<Longrightarrow> is_match q c r \<and> same_pattern q q'"
  by (auto simp: exec_def is_match_def same_pattern_def split: option.splits if_splits
           dest!: match_from_Some)

lemma exec_null:
  "exec q c = (q', None) \<Longrightarrow> q' = q\<lparr>lastIndex := 0\<rparr>"
  by (auto simp: exec_def split: option.splits)

text \<open>\<^verbatim>\<open>String.prototype.lastIndexOf(searchString, position)\<close>: the largest \<open>k\<close> not above the
  position at which the search string occurs, or -1.\<close>

fun lastIndexOf_upto :: "string \<Rightarrow> string \<Rightarrow> nat \<Rightarrow> int" where
  "lastIndexOf_upto s t 0 = (if substring s 0 (length t) = t then 0 else -1)"
| "lastIndexOf_upto s t (Suc k) =
     (if substring s (Suc k) (Suc k + length t) = t then int (Suc k) else lastIndexOf_upto s t k)"

definition lastIndexOf :: "string \<Rightarrow> string \<Rightarrow> nat \<Rightarrow> int" where
  "lastIndexOf s t pos =
     (if length s < length t then -1
      else lastIndexOf_upto s t (min pos (length s - length t)))"

text \<open>\<^verbatim>\<open>String.prototype.substr(start, length)\<close>, for arguments that are not negative.\<close>

definition substr :: "string \<Rightarrow> nat \<Rightarrow> nat \<Rightarrow> string" where
  "substr s start len = take len (drop start s)"

text \<open>\<^verbatim>\<open>String.prototype.replace\<close> with a pattern and a replacement text. The replacement is
  given in parsed form: plain text, \<^verbatim>\<open>$n\<close> and \<^verbatim>\<open>$&\<close>. A global pattern replaces every
  match, scanning on from the end of the previous one and stepping over an empty match.\<close>

datatype repl_item = RText string | RCapture nat | RMatched

fun expand :: "repl_item list \<Rightarrow> match_result \<Rightarrow> string" where
  "expand [] m = []"
| "expand (RText t # rs) m = t @ expand rs m"
| "expand (RCapture n # rs) m = (case capture m n of None \<Rightarrow> [] | Some t \<Rightarrow> t) @ expand rs m"
| "expand (RMatched # rs) m = matched m @ expand rs m"

function replace_from :: "regexp \<Rightarrow> repl_item list \<Rightarrow> string \<Rightarrow> nat \<Rightarrow> nat \<Rightarrow> string" where
  "replace_from re rp s copied li =
     (case match_from re s li of
        None \<Rightarrow> drop copied s
      | Some (i, st) \<Rightarrow>
          substring s copied i @ expand rp (result_of s i st) @
          replace_from re rp s (fst st) (if fst st = i then Suc (fst st) else fst st))"
  by pat_completeness auto
termination
  apply (relation "measure (\<lambda>(re, rp, s, copied, li). Suc (length s) - li)")
   apply simp
  subgoal for re rp s copied li x2 i st
    using match_from_bounds[of re s li i "fst st" "snd st"] by auto
  done

declare replace_from.simps [simp del]

definition str_replace :: "string \<Rightarrow> regexp \<Rightarrow> repl_item list \<Rightarrow> string" where
  "str_replace s re rp =
     (if global re then replace_from re rp s 0 0
      else
        (case match_from re s 0 of
           None \<Rightarrow> s
         | Some (i, st) \<Rightarrow> take i s @ expand rp (result_of s i st) @ drop (fst st) s))"

subsection \<open>The helpers of \<^verbatim>\<open>utils/StringUtils\<close>\<close>

text \<open>
  \<^verbatim>\<open>_getSearchMatches\<close> calls \<^verbatim>\<open>StringUtils.getLines\<close> and \<^verbatim>\<open>StringUtils.offsetToLineNum\<close>,
  which live in another module. The extractor below takes the two helpers as a parameter.
\<close>

record string_utils =
  getLines :: "string \<Rightarrow> string list"
  offsetToLineNum :: "string list \<Rightarrow> nat \<Rightarrow> nat"

text \<open>Modelled from the spec: \<^verbatim>\<open>StringUtils.getLines\<close>, whose source is not part of the module.
  The spec has the text split into lines once, newline-delimited.\<close>

fun StringUtils_getLines :: "string \<Rightarrow> string list" where
  "StringUtils_getLines [] = [[]]"
| "StringUtils_getLines (c # cs) =
     (if c = newline then [] # StringUtils_getLines cs
      else (case StringUtils_getLines cs of
              [] \<Rightarrow> [[c]]
            | l # ls \<Rightarrow> (c # l) # ls))"

text \<open>Modelled from the spec: \<^verbatim>\<open>StringUtils.offsetToLineNum\<close>, whose source is not part of the
  module. The spec derives the 0-based line number by counting line breaks up to the offset;
  over the array of lines, a line of length \<open>n\<close> is followed by a break at offset \<open>n\<close>
  from its start.\<close>

fun StringUtils_offsetToLineNum :: "string list \<Rightarrow> nat \<Rightarrow> nat" where
  "StringUtils_offsetToLineNum [] offset = 0"
| "StringUtils_offsetToLineNum (l # ls) offset =
     (if offset \<le> length l then 0
      else Suc (StringUtils_offsetToLineNum ls (offset - Suc (length l))))"

definition StringUtils :: string_utils where
  "StringUtils =
     \<lparr>getLines = StringUtils_getLines, offsetToLineNum = StringUtils_offsetToLineNum\<rparr>"

subsection \<open>\<^verbatim>\<open>_getQueryRegExp\<close>\<close>

text \<open>The two pattern literals of the function, \<^verbatim>\<open>/^\/(.*)\/(g|i)*$/\<close> and
  \<^verbatim>\<open>/([(){}\[\].\^$|?+*\\])/g\<close>, as RegExp objects. Their parsed forms are what
  \<open>parse_pattern\<close> makes of their texts (lemmas \<open>isRE_literal_parse\<close> and
  \<open>escape_literal_parse\<close>).\<close>

definition isRE_literal :: regexp where
  "isRE_literal =
     \<lparr>source = ''^'' @ [bslash] @ ''/(.*)'' @ [bslash] @ ''/(g|i)*$'',
      pattern =
        Seq Bol
          (Seq (Chr CHR ''/'')
            (Seq (Group 1 (Seq (Star Dot) Empty))
              (Seq (Chr CHR ''/'')
                (Seq (Star (Group 2 (Alt (Seq (Chr CHR ''g'') Empty) (Seq (Chr CHR ''i'') Empty))))
                  (Seq Eol Empty))))),
      global = False, ignoreCase = False, multiline = False, lastIndex = 0\<rparr>"

definition special_chars :: string where
  "special_chars = ''(){}[].^$|?+*'' @ [bslash]"

definition escape_literal :: regexp where
  "escape_literal =
     \<lparr>source = ''([(){}'' @ [bslash] @ ''['' @ [bslash] @ ''].'' @ [bslash] @ ''^$|?+*''
                 @ [bslash, bslash] @ ''])'',
      pattern = Seq (Group 1 (Seq (CharClass False (map (\<lambda>c. (c, c)) special_chars)) Empty)) Empty,
      global = True, ignoreCase = False, multiline = False, lastIndex = 0\<rparr>"

text \<open>
  \<^verbatim>\<open>
  function _getQueryRegExp(query) {
      var isRE = query.match(/^\/(.*)\/(g|i)*$/);
      if (isRE) {
          var flags = isRE[2] || "g";
          if (flags.search("g") === -1) { flags += "g"; }
          return new RegExp(isRE[1], flags);
      }
      query = query.replace(/([(){}\[\].\^$|?+*\\])/g, "\\$1");
      return new RegExp(query, "gi");
  }
  \<close>
  \<^verbatim>\<open>isRE[2] || "g"\<close> is \<^verbatim>\<open>"g"\<close> when the second capture is undefined or empty.
  \<^verbatim>\<open>flags.search("g")\<close> makes a RegExp of its string argument. The constructor reads an
  undefined pattern as the empty one.
\<close>

definition getQueryRegExp :: "string \<Rightarrow> error + regexp" where
  "getQueryRegExp query =
     (case str_match query isRE_literal of
        Some isRE \<Rightarrow>
          (let flags = (case capture isRE 2 of
                          None \<Rightarrow> ''g''
                        | Some f \<Rightarrow> if f = [] then ''g'' else f)
           in case new_RegExp ''g'' [] of
                Inl e \<Rightarrow> Inl e
              | Inr g \<Rightarrow>
                 (let flags = (if search flags g = -1 then flags @ ''g'' else flags)
                  in new_RegExp (case capture isRE 1 of None \<Rightarrow> [] | Some body \<Rightarrow> body) flags))
      | None \<Rightarrow>
          (let query = str_replace query escape_literal [RText [bslash], RCapture 1]
           in new_RegExp query ''gi''))"

text \<open>Every object that \<open>getQueryRegExp\<close> returns is global, is not multiline and has
  \<^verbatim>\<open>lastIndex\<close> 0 (lemma \<open>getQueryRegExp_compiled\<close>); \<open>compiled\<close> writes such an object.\<close>

definition compiled :: "string \<Rightarrow> regex \<Rightarrow> bool \<Rightarrow> regexp" where
  "compiled src pat ic =
     \<lparr>source = src, pattern = pat, global = True, ignoreCase = ic, multiline = False,
      lastIndex = 0\<rparr>"

subsection \<open>\<^verbatim>\<open>_getSearchMatches\<close>\<close>

text \<open>A position is a line and a column; the column is the result of a subtraction and is
  kept as an integer. A match has its two ends and the text of its line.\<close>

record position =
  line :: nat
  ch :: int

record search_match =
  m_start :: position
  m_end :: position
  m_line :: string

text \<open>The lexicographic order of positions, by line and then column.\<close>

definition pos_le :: "position \<Rightarrow> position \<Rightarrow> bool" where
  "pos_le p q = (line p < line q \<or> (line p = line q \<and> ch p \<le> ch q))"

text \<open>
  \<^verbatim>\<open>
  while ((match = queryExpr.exec(contents)) !== null) {
      var lineNum = StringUtils.offsetToLineNum(lines, match.index);
      var line = lines[lineNum];
      var ch = match.index - contents.lastIndexOf("\n", match.index) - 1;  // 0-based index
      var matchLength = match[0].length;
      // Don't store more than 200 chars per line
      line = line.substr(0, Math.min(200, line.length));
      matches.push({start: {line: lineNum, ch: ch}, end: {line: lineNum, ch: ch + matchLength},
                    line: line});
  }
  \<close>
  The body of the loop, for one result of \<^verbatim>\<open>exec\<close>. A line number outside the array makes
  \<^verbatim>\<open>line\<close> undefined and the call of \<^verbatim>\<open>substr\<close> a TypeError.
\<close>

definition loop_body :: "string_utils \<Rightarrow> string \<Rightarrow> string list \<Rightarrow> match_result \<Rightarrow> error + search_match" where
  "loop_body U contents lines match =
     (let lineNum = offsetToLineNum U lines (index match) in
      if lineNum < length lines then
        (let line = lines ! lineNum;
             ch = int (index match) - lastIndexOf contents [newline] (index match) - 1;
             matchLength = length (matched match);
             line = substr line 0 (min 200 (length line))
         in Inr \<lparr>m_start = \<lparr>line = lineNum, ch = ch\<rparr>,
                 m_end = \<lparr>line = lineNum, ch = ch + int matchLength\<rparr>,
                 m_line = line\<rparr>)
      else Inl TypeError)"

text \<open>The loop. It may run forever, so its result is optional: \<open>None\<close> is a loop that never
  ends. It returns the matches and the RegExp object as \<^verbatim>\<open>exec\<close> left it.\<close>

partial_function (option) scan_loop ::
  "string_utils \<Rightarrow> string \<Rightarrow> string list \<Rightarrow> regexp \<Rightarrow> search_match list
     \<Rightarrow> (error + search_match list \<times> regexp) option" where
  "scan_loop U contents lines queryExpr matches =
     (case exec queryExpr contents of
        (queryExpr', None) \<Rightarrow> Some (Inr (matches, queryExpr'))
      | (queryExpr', Some match) \<Rightarrow>
         (case loop_body U contents lines match of
            Inl e \<Rightarrow> Some (Inl e)
          | Inr m \<Rightarrow> scan_loop U contents lines queryExpr' (matches @ [m])))"

declare scan_loop.simps [code]

text \<open>
  \<^verbatim>\<open>
  function _getSearchMatches(contents, queryExpr) {
      // Quick exit if not found
      if (contents.search(queryExpr) === -1) { return null; }
      ...
      var matches = [];
      var match;
      var lines = StringUtils.getLines(contents);
      while (...) { ... }
      return matches;
  }
  \<close>
  The result is \<open>None\<close> when the function does not return, \<open>Inl\<close> when it throws; a
  returned \<^verbatim>\<open>null\<close> is the inner \<open>None\<close>.
\<close>

definition getSearchMatches ::
  "string_utils \<Rightarrow> string \<Rightarrow> regexp \<Rightarrow> (error + search_match list option \<times> regexp) option" where
  "getSearchMatches U contents queryExpr =
     (if search contents queryExpr = -1 then Some (Inr (None, queryExpr))
      else
        (case scan_loop U contents (getLines U contents) queryExpr [] of
           None \<Rightarrow> None
         | Some (Inl e) \<Rightarrow> Some (Inl e)
         | Some (Inr (matches, queryExpr')) \<Rightarrow> Some (Inr (Some matches, queryExpr'))))"

subsection \<open>\<^verbatim>\<open>doFindInFiles\<close>\<close>

text \<open>
  The fan-out over the project's files. \<^verbatim>\<open>DocumentManager.getDocumentForPath\<close> returns a
  promise that is resolved with the document or rejected; a file is given here with that
  outcome. The handlers of the promises run one at a time, each to its end, in the order in
  which the loads complete: the list of files is read in that order.
\<close>

datatype load = Loaded string | LoadFailed

datatype promise = Resolved | Rejected

record file_result =
  fullPath :: string
  matches :: "search_match list"

type_synonym search_state = "regexp \<times> file_result list"

text \<open>
  \<^verbatim>\<open>
  function (fileInfo) {
      var result = new $.Deferred();
      DocumentManager.getDocumentForPath(fileInfo.fullPath)
          .done(function (doc) {
              var matches = _getSearchMatches(doc.getText(), queryExpr);
              if (matches && matches.length) {
                  searchResults.push({fullPath: fileInfo.fullPath, matches: matches});
              }
              result.resolve();
          })
          .fail(function (error) {
              // Error reading this file. This is most likely because the file isn't a text file.
              // Resolve here so we move on to the next file.
              result.resolve();
          });
      return result.promise();
  }
  \<close>
  The state is the shared RegExp object and \<^verbatim>\<open>searchResults\<close>.
\<close>

definition fileHandler ::
  "string_utils \<Rightarrow> string \<times> load \<Rightarrow> search_state \<Rightarrow> (error + promise \<times> search_state) option" where
  "fileHandler U fileInfo st =
     (case snd fileInfo of
        LoadFailed \<Rightarrow> Some (Inr (Resolved, st))
      | Loaded text \<Rightarrow>
         (case getSearchMatches U text (fst st) of
            None \<Rightarrow> None
          | Some (Inl e) \<Rightarrow> Some (Inl e)
          | Some (Inr (found, queryExpr')) \<Rightarrow>
             Some (Inr (Resolved,
               (queryExpr',
                (case found of
                   None \<Rightarrow> snd st
                 | Some arr \<Rightarrow>
                    if length arr \<noteq> 0 then snd st @ [\<lparr>fullPath = fst fileInfo, matches = arr\<rparr>]
                    else snd st))))))"

text \<open>Modelled from the spec: \<^verbatim>\<open>Async.doInParallel\<close>, whose source is not part of the module.
  The spec has every operation started and the caller suspended until every one has settled;
  the joint promise is resolved when none was rejected.\<close>

fun doInParallel ::
  "'a list \<Rightarrow> ('a \<Rightarrow> 's \<Rightarrow> (error + promise \<times> 's) option) \<Rightarrow> 's \<Rightarrow> (error + promise \<times> 's) option" where
  "doInParallel [] h st = Some (Inr (Resolved, st))"
| "doInParallel (x # xs) h st =
     (case h x st of
        None \<Rightarrow> None
      | Some (Inl e) \<Rightarrow> Some (Inl e)
      | Some (Inr (p, st')) \<Rightarrow>
         (case doInParallel xs h st' of
            None \<Rightarrow> None
          | Some (Inl e) \<Rightarrow> Some (Inl e)
          | Some (Inr (p', st'')) \<Rightarrow> Some (Inr (if p = Rejected then Rejected else p', st''))))"

text \<open>What the user gets: no search for an empty or cancelled query, the results handed
  to \<^verbatim>\<open>_showSearchResults\<close>, or the failure logged on the console.\<close>

datatype outcome = NoSearch | Shown "file_result list" | Logged

text \<open>
  \<^verbatim>\<open>
  dialog.showDialog(initialString).done(function (query) {
      if (query) {
          var queryExpr = _getQueryRegExp(query);
          FileIndexManager.getFileInfoList("all").done(function (fileListResult) {
              Async.doInParallel(fileListResult, function (fileInfo) { ... })
                  .done(function () { _showSearchResults(searchResults); })
                  .fail(function () { console.log("find in files failed."); });
          });
      }
  });
  \<close>
  The query is \<open>None\<close> when the dialog resolves with \<^verbatim>\<open>null\<close>.
\<close>

definition doFindInFiles ::
  "string_utils \<Rightarrow> string option \<Rightarrow> (string \<times> load) list \<Rightarrow> (error + outcome) option" where
  "doFindInFiles U query fileListResult =
     (case query of
        None \<Rightarrow> Some (Inr NoSearch)
      | Some q \<Rightarrow>
         if q = [] then Some (Inr NoSearch)
         else
           (case getQueryRegExp q of
              Inl e \<Rightarrow> Some (Inl e)
            | Inr queryExpr \<Rightarrow>
               (case doInParallel fileListResult (fileHandler U) (queryExpr, []) of
                  None \<Rightarrow> None
                | Some (Inl e) \<Rightarrow> Some (Inl e)
                | Some (Inr (Resolved, st)) \<Rightarrow> Some (Inr (Shown (snd st)))
                | Some (Inr (Rejected, st)) \<Rightarrow> Some (Inr Logged))))"

section \<open>The pattern literals\<close>

lemma isRE_literal_parse: "new_RegExp (source isRE_literal) [] = Inr isRE_literal"
  by code_simp

lemma escape_literal_parse: "new_RegExp (source escape_literal) ''g'' = Inr escape_literal"
  by code_simp

lemma compiled_sel [simp]:
  "source (compiled src pat ic) = src"
  "pattern (compiled src pat ic) = pat"
  "global (compiled src pat ic)"
  "ignoreCase (compiled src pat ic) = ic"
  "\<not> multiline (compiled src pat ic)"
  "lastIndex (compiled src pat ic) = 0"
  "(compiled src pat ic)\<lparr>lastIndex := 0\<rparr> = compiled src pat ic"
  by (simp_all add: compiled_def)

section \<open>The scan loop\<close>

text \<open>When \<^verbatim>\<open>exec\<close> finds a match and leaves the object as it was, the next call finds the
  same match: the loop never ends.\<close>

lemma scan_loop_stuck:
  assumes ex: "exec q c = (q, Some r)" and body: "loop_body U c l r = Inr m"
  shows "scan_loop U c l q acc = None"
proof (rule ccontr)
  assume "scan_loop U c l q acc \<noteq> None"
  then obtain y where y: "scan_loop U c l q acc = Some y" by auto
  let ?P = "\<lambda>U' c' l' q' (acc' :: search_match list) (y' :: error + search_match list \<times> regexp).
              \<not> (U' = U \<and> c' = c \<and> l' = l \<and> q' = q)"
  have step: "?P U' c' l' q' acc' y'"
    if ih: "\<And>U'' c'' l'' q'' acc'' y''. f U'' c'' l'' q'' acc'' = Some y'' \<Longrightarrow> ?P U'' c'' l'' q'' acc'' y''"
    and unf: "(case exec q' c' of
                 (queryExpr', None) \<Rightarrow> Some (Inr (acc', queryExpr'))
               | (queryExpr', Some match) \<Rightarrow>
                   (case loop_body U' c' l' match of
                      Inl e \<Rightarrow> Some (Inl e)
                    | Inr m \<Rightarrow> f U' c' l' queryExpr' (acc' @ [m]))) = Some y'"
    for f U' c' l' q' acc' y'
  proof
    assume eq: "U' = U \<and> c' = c \<and> l' = l \<and> q' = q"
    with unf ex body have "f U c l q (acc' @ [m]) = Some y'" by simp
    from ih[OF this] show False by simp
  qed
  have "?P U c l q acc y"
    by (rule scan_loop.raw_induct[where P = ?P, OF step y])
  then show False by simp
qed

lemma getLines_nonempty: "StringUtils_getLines s \<noteq> []"
  by (induction s) (auto split: list.splits)

lemma match_from_Empty:
  "i \<le> length s \<Longrightarrow> pattern re = Empty \<Longrightarrow> match_from re s i = Some (i, (i, Map.empty))"
  by (simp add: match_from.simps[of re s i] matches_at_def)

lemma regexp_eqI:
  "same_pattern q q' \<Longrightarrow> lastIndex q' = n \<Longrightarrow> q' = q\<lparr>lastIndex := n\<rparr>"
  by (cases q; cases q') (simp add: same_pattern_def)

lemma scan_loop_result:
  assumes "scan_loop U c l q acc = Some (Inr (found, q'))"
  shows "\<exists>new. found = acc @ new \<and>
               (\<forall>m\<in>set new. \<exists>r. is_match q c r \<and> loop_body U c l r = Inr m) \<and>
               q' = q\<lparr>lastIndex := 0\<rparr>"
proof -
  let ?P = "\<lambda>U c l q (acc :: search_match list) (y :: error + search_match list \<times> regexp).
     \<forall>found q'. y = Inr (found, q') \<longrightarrow>
        (\<exists>new. found = acc @ new \<and>
               (\<forall>m\<in>set new. \<exists>r. is_match q c r \<and> loop_body U c l r = Inr m) \<and>
               q' = q\<lparr>lastIndex := 0\<rparr>)"
  have step: "?P U c l q acc y"
    if ih: "\<And>U c l q acc y. f U c l q acc = Some y \<Longrightarrow> ?P U c l q acc y"
    and unf: "(case exec q c of
                 (queryExpr', None) \<Rightarrow> Some (Inr (acc, queryExpr'))
               | (queryExpr', Some match) \<Rightarrow>
                   (case loop_body U c l match of
                      Inl e \<Rightarrow> Some (Inl e)
                    | Inr m \<Rightarrow> f U c l queryExpr' (acc @ [m]))) = Some y"
    for f U c l q acc y
  proof (intro allI impI)
    fix found q'
    assume y: "y = Inr (found, q')"
    obtain q1 res where ex: "exec q c = (q1, res)" by (cases "exec q c")
    show "\<exists>new. found = acc @ new \<and>
               (\<forall>m\<in>set new. \<exists>r. is_match q c r \<and> loop_body U c l r = Inr m) \<and>
               q' = q\<lparr>lastIndex := 0\<rparr>"
    proof (cases res)
      case None
      with unf ex y have "found = acc" "q' = q1" by simp_all
      moreover from exec_null ex None have "q1 = q\<lparr>lastIndex := 0\<rparr>" by simp
      ultimately show ?thesis by simp
    next
      case (Some r)
      from exec_result ex Some have im: "is_match q c r" and sp: "same_pattern q q1" by auto
      from unf ex Some y obtain m where lb: "loop_body U c l r = Inr m"
        and rec: "f U c l q1 (acc @ [m]) = Some (Inr (found, q'))"
        by (cases "loop_body U c l r") auto
      from ih[OF rec] obtain new where
        n1: "found = (acc @ [m]) @ new"
        and n2: "\<forall>m\<in>set new. \<exists>r. is_match q1 c r \<and> loop_body U c l r = Inr m"
        and n3: "q' = q1\<lparr>lastIndex := 0\<rparr>" by blast
      from n3 sp have "q' = q\<lparr>lastIndex := 0\<rparr>"
        by (intro regexp_eqI) (simp_all add: same_pattern_def)
      moreover from n2 im lb same_pattern_is_match[OF sp]
      have "\<forall>m\<in>set (m # new). \<exists>r. is_match q c r \<and> loop_body U c l r = Inr m" by auto
      moreover from n1 have "found = acc @ (m # new)" by simp
      ultimately show ?thesis by blast
    qed
  qed
  have "?P U c l q acc (Inr (found, q'))"
    by (rule scan_loop.raw_induct[where P = ?P, OF step assms])
  then show ?thesis by blast
qed

lemma scan_loop_terminates:
  assumes "global q"
    and "\<forall>i st rest. i \<le> length c \<and> matches_at q c i = st # rest \<longrightarrow> i < fst st"
  shows "\<exists>y. scan_loop U c l q acc = Some y"
  using assms
proof (induction "Suc (length c) - lastIndex q" arbitrary: q acc rule: less_induct)
  case less
  show ?case
  proof (cases "match_from q c (lastIndex q)")
    case None
    then show ?thesis
      using less.prems(1) by (subst scan_loop.simps) (simp add: exec_def)
  next
    case (Some a)
    obtain i e cp where a: "a = (i, (e, cp))" by (cases a) auto
    from match_from_Some[of q c "lastIndex q" i "(e, cp)"] Some a obtain rest where
      b: "lastIndex q \<le> i" "i \<le> length c" "matches_at q c i = (e, cp) # rest" by auto
    with less.prems(2) have ie: "i < e" by fastforce
    from match_from_bounds[of q c "lastIndex q" i e cp] Some a have el: "e \<le> length c" by simp
    let ?q1 = "q\<lparr>lastIndex := e\<rparr>"
    have ex: "exec q c = (?q1, Some (result_of c i (e, cp)))"
      using less.prems(1) Some a by (simp add: exec_def)
    show ?thesis
    proof (cases "loop_body U c l (result_of c i (e, cp))")
      case (Inl err)
      then show ?thesis using ex by (subst scan_loop.simps) simp
    next
      case (Inr m)
      have "Suc (length c) - lastIndex ?q1 < Suc (length c) - lastIndex q"
        using b ie el by simp
      moreover have "global ?q1" using less.prems(1) by simp
      moreover have "matches_at ?q1 c = matches_at q c"
        by (simp add: matches_at_def fun_eq_iff)
      ultimately have "\<exists>y. scan_loop U c l ?q1 (acc @ [m]) = Some y"
        using less.hyps[of ?q1 "acc @ [m]"] less.prems(2) by simp
      then show ?thesis using ex Inr by (subst scan_loop.simps) simp
    qed
  qed
qed

section \<open>The claims\<close>

text \<open>
  Claim C2: for every compiled pattern and every text the match-extraction scan terminates;
  in particular a pattern that can match the empty string, such as the one of the query
  \<^verbatim>\<open>//\<close>, must not make the repeated-exec loop run forever.

  The code has no guard. The query \<^verbatim>\<open>//\<close> compiles to the empty pattern with the global
  flag; on every text the first \<^verbatim>\<open>exec\<close> matches the empty string at 0 and leaves
  \<^verbatim>\<open>lastIndex\<close> at 0, and the extractor never returns.
\<close>

theorem getSearchMatches_empty_pattern_diverges:
  "getQueryRegExp ''//'' = Inr (compiled [] Empty False)
   \<and> (\<forall>contents. getSearchMatches StringUtils contents (compiled [] Empty False) = None)"
proof -
  let ?R = "compiled [] Empty False"
  have c: "getQueryRegExp ''//'' = Inr ?R" by code_simp
  have d: "getSearchMatches StringUtils contents ?R = None" for contents
  proof -
    have m: "match_from ?R contents 0 = Some (0, (0, Map.empty))"
      by (rule match_from_Empty) (simp_all add: compiled_def)
    have ex: "exec ?R contents = (?R, Some (result_of contents 0 (0, Map.empty)))"
      by (simp add: exec_def m)
    obtain l ls where ls: "StringUtils_getLines contents = l # ls"
      using getLines_nonempty[of contents] by (cases "StringUtils_getLines contents") auto
    have "\<exists>m. loop_body StringUtils contents (StringUtils_getLines contents)
            (result_of contents 0 (0, Map.empty)) = Inr m"
      by (simp add: loop_body_def StringUtils_def result_of_def ls Let_def)
    then obtain mm where "loop_body StringUtils contents (StringUtils_getLines contents)
            (result_of contents 0 (0, Map.empty)) = Inr mm" ..
    from scan_loop_stuck[OF ex this]
    have "scan_loop StringUtils contents (StringUtils_getLines contents) ?R [] = None" .
    moreover have "search contents ?R \<noteq> -1" by (simp add: search_def m)
    ultimately show ?thesis by (simp add: getSearchMatches_def StringUtils_def)
  qed
  from c d show ?thesis by blast
qed

text \<open>
  Claim C4: for a query of the shape \<^verbatim>\<open>/<body>/<flags>\<close> the compiler uses the body as the
  source and the entire flags string as it is, only adding \<^verbatim>\<open>g\<close> when it is absent; for
  \<^verbatim>\<open>/a/ig\<close> the compiled pattern retains the \<^verbatim>\<open>i\<close> flag and is case-insensitive.

  The second capture of \<^verbatim>\<open>/^\/(.*)\/(g|i)*$/\<close> holds the last repetition of the group only.
  For \<^verbatim>\<open>/a/ig\<close> the flags passed on are \<^verbatim>\<open>g\<close>: the pattern is case-sensitive and does not
  find \<^verbatim>\<open>A\<close>. In the other order, \<^verbatim>\<open>/a/gi\<close>, the capture is \<^verbatim>\<open>i\<close>, \<^verbatim>\<open>g\<close> is added and both
  flags are set.
\<close>

theorem getQueryRegExp_last_flag_only:
  "getQueryRegExp ''/a/ig'' = Inr (compiled ''a'' (Seq (Chr CHR ''a'') Empty) False)
   \<and> search ''A'' (compiled ''a'' (Seq (Chr CHR ''a'') Empty) False) = -1
   \<and> getQueryRegExp ''/a/gi'' = Inr (compiled ''a'' (Seq (Chr CHR ''a'') Empty) True)"
  by code_simp

text \<open>
  Claim C5: for every match the extractor finds, the 0-based line number is the count of
  line breaks before the match's offset and the 0-based column is the offset minus the
  offset of the most recent preceding newline minus one; for the text \<^verbatim>\<open>foo\nbar foo\n\<close> and
  the query \<^verbatim>\<open>foo\<close> there are exactly two matches, at (0,0)-(0,3) and (1,4)-(1,7).

  The column is computed with \<^verbatim>\<open>contents.lastIndexOf("\n", match.index)\<close>, whose search
  starts at the offset itself. A match that begins at a line break therefore gets the column
  -1, on the line that the break ends: the query \<^verbatim>\<open>/\n/\<close> on the text \<^verbatim>\<open>a\nb\<close> yields the
  match from (0,-1) to (0,0).
\<close>

theorem getSearchMatches_column_at_newline:
  "getQueryRegExp (''/'' @ [bslash] @ ''n/'') =
     Inr (compiled [bslash, CHR ''n''] (Seq (Chr newline) Empty) False)
   \<and> getSearchMatches StringUtils ''a\<newline>b''
         (compiled [bslash, CHR ''n''] (Seq (Chr newline) Empty) False) =
       Some (Inr (Some [\<lparr>m_start = \<lparr>line = 0, ch = -1\<rparr>, m_end = \<lparr>line = 0, ch = 0\<rparr>,
                         m_line = ''a''\<rparr>],
                  compiled [bslash, CHR ''n''] (Seq (Chr newline) Empty) False))"
  by code_simp

lemma getSearchMatches_found:
  assumes "getSearchMatches U contents re = Some (Inr (Some found, re'))"
  shows "scan_loop U contents (getLines U contents) re [] = Some (Inr (found, re'))"
  using assms
  by (auto simp: getSearchMatches_def split: if_splits option.splits sum.splits)

text \<open>
  Claim C6: every match that the extractor produces has its start before or at its end in the
  lexicographic order of line and column, both on the same line, and the difference of the
  end column and the start column is the length of the matched text.

  Every element of a returned array is the loop body's record for a result \<open>r\<close> of
  \<^verbatim>\<open>exec\<close> on the text, whatever the two helpers of \<^verbatim>\<open>StringUtils\<close> do.
\<close>

theorem match_extent:
  assumes "getSearchMatches U contents re = Some (Inr (Some found, re'))" and "m \<in> set found"
  shows "\<exists>r. is_match re contents r \<and> loop_body U contents (getLines U contents) r = Inr m \<and>
             pos_le (m_start m) (m_end m) \<and> line (m_end m) = line (m_start m) \<and>
             ch (m_end m) - ch (m_start m) = int (length (matched r))"
proof -
  from scan_loop_result[OF getSearchMatches_found[OF assms(1)]] assms(2)
  obtain r where r: "is_match re contents r"
    and lb: "loop_body U contents (getLines U contents) r = Inr m" by auto
  from lb have "line (m_end m) = line (m_start m)"
    and "ch (m_end m) - ch (m_start m) = int (length (matched r))"
    by (auto simp: loop_body_def Let_def split: if_splits)
  moreover from this have "pos_le (m_start m) (m_end m)" by (simp add: pos_le_def)
  ultimately show ?thesis using r lb by blast
qed

theorem match_extent_witness:
  "getSearchMatches StringUtils ''foo\<newline>bar foo\<newline>''
      (compiled ''foo'' (seq_of (map Chr ''foo'')) True) =
     Some (Inr (Some [\<lparr>m_start = \<lparr>line = 0, ch = 0\<rparr>, m_end = \<lparr>line = 0, ch = 3\<rparr>, m_line = ''foo''\<rparr>,
                      \<lparr>m_start = \<lparr>line = 1, ch = 4\<rparr>, m_end = \<lparr>line = 1, ch = 7\<rparr>, m_line = ''bar foo''\<rparr>],
                compiled ''foo'' (seq_of (map Chr ''foo'')) True))
   \<and> (\<exists>r. is_match (compiled ''foo'' (seq_of (map Chr ''foo'')) True) ''foo\<newline>bar foo\<newline>'' r
          \<and> pos_le \<lparr>line = 1, ch = 4\<rparr> \<lparr>line = 1, ch = 7\<rparr>
          \<and> 7 - 4 = int (length (matched r)))"
proof -
  let ?m = "\<lparr>m_start = \<lparr>line = 1, ch = 4\<rparr>, m_end = \<lparr>line = 1, ch = 7\<rparr>, m_line = ''bar foo''\<rparr>"
  have h: "getSearchMatches StringUtils ''foo\<newline>bar foo\<newline>''
      (compiled ''foo'' (seq_of (map Chr ''foo'')) True) =
     Some (Inr (Some [\<lparr>m_start = \<lparr>line = 0, ch = 0\<rparr>, m_end = \<lparr>line = 0, ch = 3\<rparr>, m_line = ''foo''\<rparr>, ?m],
                compiled ''foo'' (seq_of (map Chr ''foo'')) True))"
    by code_simp
  from match_extent[OF h, of ?m] show ?thesis using h by auto
qed

text \<open>
  Claim C8: for every text and compiled pattern the extractor returns an empty result exactly
  when the pattern has no match in the text, and in that case it returns at once, without
  splitting the text into lines.

  A compiled pattern has \<^verbatim>\<open>lastIndex\<close> 0. With no match at any position the result is
  \<^verbatim>\<open>null\<close> for every pair of helpers \<open>V\<close>, so the helpers play no part; a returned \<^verbatim>\<open>null\<close>
  means that no position has a match; and a returned array is never empty.
\<close>

theorem null_iff_no_match:
  assumes "lastIndex re = 0"
  shows "((\<forall>i\<le>length contents. matches_at re contents i = []) \<longrightarrow>
            (\<forall>V. getSearchMatches V contents re = Some (Inr (None, re))))
       \<and> ((\<exists>re'. getSearchMatches U contents re = Some (Inr (None, re'))) \<longrightarrow>
            (\<forall>i\<le>length contents. matches_at re contents i = []))
       \<and> (\<forall>found re'. getSearchMatches U contents re = Some (Inr (Some found, re')) \<longrightarrow> found \<noteq> [])"
proof (intro conjI impI allI)
  fix V
  assume "\<forall>i\<le>length contents. matches_at re contents i = []"
  then have "match_from re contents 0 = None" by (simp add: match_from_None_iff)
  then show "getSearchMatches V contents re = Some (Inr (None, re))"
    by (simp add: getSearchMatches_def search_def)
next
  fix i
  assume "\<exists>re'. getSearchMatches U contents re = Some (Inr (None, re'))" and i: "i \<le> length contents"
  then have "search contents re = -1"
    by (auto simp: getSearchMatches_def split: if_splits option.splits sum.splits)
  then have "match_from re contents 0 = None"
    by (auto simp: search_def split: option.splits)
  with i show "matches_at re contents i = []" by (simp add: match_from_None_iff)
next
  fix found re'
  assume g: "getSearchMatches U contents re = Some (Inr (Some found, re'))"
  then have ne: "search contents re \<noteq> -1"
    by (auto simp: getSearchMatches_def split: if_splits)
  then obtain i st where mf: "match_from re contents 0 = Some (i, st)"
    by (auto simp: search_def split: option.splits)
  have st0: "(if global re then lastIndex re else 0) = 0" using assms by simp
  have "\<exists>q1. exec re contents = (q1, Some (result_of contents i st))"
    unfolding exec_def st0 mf by simp
  then obtain q1 where ex: "exec re contents = (q1, Some (result_of contents i st))" ..
  from getSearchMatches_found[OF g]
  have sl: "scan_loop U contents (getLines U contents) re [] = Some (Inr (found, re'))" .
  then obtain m where "scan_loop U contents (getLines U contents) q1 ([] @ [m]) = Some (Inr (found, re'))"
    using ex by (subst (asm) scan_loop.simps) (auto split: sum.splits)
  from scan_loop_result[OF this] show "found \<noteq> []" by auto
qed

theorem null_iff_no_match_witness:
  "lastIndex (compiled ''foo'' (seq_of (map Chr ''foo'')) True) = 0
   \<and> getSearchMatches StringUtils ''bar'' (compiled ''foo'' (seq_of (map Chr ''foo'')) True) =
       Some (Inr (None, compiled ''foo'' (seq_of (map Chr ''foo'')) True))
   \<and> [\<lparr>m_start = \<lparr>line = 0, ch = 0\<rparr>, m_end = \<lparr>line = 0, ch = 3\<rparr>, m_line = ''foo''\<rparr>] \<noteq> []"
proof -
  let ?R = "compiled ''foo'' (seq_of (map Chr ''foo'')) True"
  have l: "lastIndex ?R = 0" by simp
  have "match_from ?R ''bar'' 0 = None" by code_simp
  then have n: "\<forall>i\<le>length ''bar''. matches_at ?R ''bar'' i = []"
    by (simp add: match_from_None_iff)
  have f: "getSearchMatches StringUtils ''foo'' ?R =
     Some (Inr (Some [\<lparr>m_start = \<lparr>line = 0, ch = 0\<rparr>, m_end = \<lparr>line = 0, ch = 3\<rparr>, m_line = ''foo''\<rparr>], ?R))"
    by code_simp
  from null_iff_no_match[OF l, of "''bar''" StringUtils] n
  have "getSearchMatches StringUtils ''bar'' ?R = Some (Inr (None, ?R))" by blast
  moreover from null_iff_no_match[OF l, of "''foo''" StringUtils] f
  have "[\<lparr>m_start = \<lparr>line = 0, ch = 0\<rparr>, m_end = \<lparr>line = 0, ch = 3\<rparr>, m_line = ''foo''\<rparr>] \<noteq> []"
    by blast
  ultimately show ?thesis using l by blast
qed

lemma fileHandler_LoadFailed [simp]:
  "fileHandler U (path, LoadFailed) st = Some (Inr (Resolved, st))"
  by (simp add: fileHandler_def)

lemma fileHandler_Resolved:
  "fileHandler U f st = Some (Inr (p, st')) \<Longrightarrow> p = Resolved"
  by (auto simp: fileHandler_def split: load.splits option.splits sum.splits)

lemma doInParallel_skip_failed:
  "doInParallel (fs1 @ (path, LoadFailed) # fs2) (fileHandler U) st =
   doInParallel (fs1 @ fs2) (fileHandler U) st"
proof (induction fs1 arbitrary: st)
  case Nil
  show ?case
    by (cases "doInParallel fs2 (fileHandler U) st")
       (auto split: sum.splits)
next
  case (Cons f fs1)
  show ?case
    by (cases "fileHandler U f st") (auto simp: Cons.IH split: sum.splits)
qed

lemma doInParallel_Resolved:
  "doInParallel fs (fileHandler U) st = Some (Inr (p, st')) \<Longrightarrow> p = Resolved"
proof (induction fs arbitrary: st p st')
  case Nil
  then show ?case by simp
next
  case (Cons f fs)
  from Cons.prems obtain p1 st1 p2 where
    h: "fileHandler U f st = Some (Inr (p1, st1))"
    and r: "doInParallel fs (fileHandler U) st1 = Some (Inr (p2, st'))"
    and p: "p = (if p1 = Rejected then Rejected else p2)"
    by (auto split: option.splits sum.splits)
  from fileHandler_Resolved[OF h] Cons.IH[OF r] p show ?case by simp
qed

text \<open>
  Claim C9: when loading the text of a file fails during a search, that file contributes no
  match, the remaining files are still processed and no error reaches the caller; with three
  files of which one fails to load, the result has entries for the other two only.

  The files are taken in the order in which their loads complete. A file whose load fails
  leaves the search as if it were not in the list, the joint promise is never rejected, and
  in the scenario the two files that load, each with a match, make up the result.
\<close>

theorem load_failure_skipped:
  "doFindInFiles U query (fs1 @ (path, LoadFailed) # fs2) = doFindInFiles U query (fs1 @ fs2)
   \<and> doFindInFiles U query fs \<noteq> Some (Inr Logged)
   \<and> doFindInFiles StringUtils (Some ''foo'')
        [(''a.js'', Loaded ''foo''), (''b.png'', LoadFailed), (''c.js'', Loaded ''x foo'')] =
      Some (Inr (Shown
        [\<lparr>fullPath = ''a.js'',
          matches = [\<lparr>m_start = \<lparr>line = 0, ch = 0\<rparr>, m_end = \<lparr>line = 0, ch = 3\<rparr>,
                      m_line = ''foo''\<rparr>]\<rparr>,
         \<lparr>fullPath = ''c.js'',
          matches = [\<lparr>m_start = \<lparr>line = 0, ch = 2\<rparr>, m_end = \<lparr>line = 0, ch = 5\<rparr>,
                      m_line = ''x foo''\<rparr>]\<rparr>]))"
proof (intro conjI)
  show "doFindInFiles U query (fs1 @ (path, LoadFailed) # fs2) = doFindInFiles U query (fs1 @ fs2)"
    unfolding doFindInFiles_def doInParallel_skip_failed by (rule refl)
  show "doFindInFiles U query fs \<noteq> Some (Inr Logged)"
    by (auto simp: doFindInFiles_def split: option.splits sum.splits promise.splits
             dest: doInParallel_Resolved)
  show "doFindInFiles StringUtils (Some ''foo'')
        [(''a.js'', Loaded ''foo''), (''b.png'', LoadFailed), (''c.js'', Loaded ''x foo'')] =
      Some (Inr (Shown
        [\<lparr>fullPath = ''a.js'',
          matches = [\<lparr>m_start = \<lparr>line = 0, ch = 0\<rparr>, m_end = \<lparr>line = 0, ch = 3\<rparr>,
                      m_line = ''foo''\<rparr>]\<rparr>,
         \<lparr>fullPath = ''c.js'',
          matches = [\<lparr>m_start = \<lparr>line = 0, ch = 2\<rparr>, m_end = \<lparr>line = 0, ch = 5\<rparr>,
                      m_line = ''x foo''\<rparr>]\<rparr>]))"
    by code_simp
qed

section \<open>The shape test of \<^verbatim>\<open>_getQueryRegExp\<close>\<close>

text \<open>What the literal \<^verbatim>\<open>/^\/(.*)\/(g|i)*$/\<close> matches and what it captures, for every query.\<close>

lemma clear_Nil [simp]: "clear [] c = c"
  by (simp add: clear_def)

lemma concat_map_single:
  "distinct xs \<Longrightarrow> x0 \<in> set xs \<Longrightarrow> (\<forall>x\<in>set xs. x \<noteq> x0 \<longrightarrow> f x = []) \<Longrightarrow>
     concat (map f xs) = f x0"
proof (induction xs)
  case Nil
  then show ?case by simp
next
  case (Cons x xs)
  show ?case
  proof (cases "x = x0")
    case True
    with Cons.prems have "\<forall>y\<in>set xs. f y = []" by auto
    then have "concat (map f xs) = []" by simp
    with True show ?thesis by simp
  next
    case False
    with Cons show ?thesis by auto
  qed
qed

lemma concat_map_none:
  "(\<forall>x\<in>set xs. f x = []) \<Longrightarrow> concat (map f xs) = []"
  by simp

fun back_to :: "nat \<Rightarrow> nat \<Rightarrow> nat list" where
  "back_to i 0 = [i]"
| "back_to i (Suc k) = back_to (Suc i) k @ [i]"

lemma set_back_to: "set (back_to i k) = {i .. i + k}"
  by (induction k arbitrary: i) auto

lemma distinct_back_to: "distinct (back_to i k)"
  by (induction k arbitrary: i) (auto simp: set_back_to)

text \<open>A starred single-character matcher walks over the longest run of characters it accepts
  and offers the positions from the far end back.\<close>

lemma ms_Star_Dot:
  "i \<le> length s \<Longrightarrow>
   ms ic ml (Star Dot) s (i, c) =
     map (\<lambda>e. (e, c)) (back_to i (length (takeWhile (\<lambda>x. \<not> isLineTerminator x) (drop i s))))"
proof (induction "length s - i" arbitrary: i)
  case 0
  then have "i = length s" by simp
  then show ?case by (subst ms_Star) simp
next
  case (Suc n)
  then have lt: "i < length s" by simp
  then have d: "drop i s = s ! i # drop (Suc i) s" by (simp add: Cons_nth_drop_Suc)
  show ?case
  proof (cases "isLineTerminator (s ! i)")
    case True
    with lt d show ?thesis by (subst ms_Star) simp
  next
    case False
    from Suc(2) lt have "n = length s - Suc i" "Suc i \<le> length s" by simp_all
    from Suc(1)[OF this] False lt d show ?thesis
      by (subst ms_Star) simp
  qed
qed

definition isFlag :: "char \<Rightarrow> bool" where
  "isFlag c = (c = CHR ''g'' \<or> c = CHR ''i'')"

abbreviation flag_group :: regex where
  "flag_group \<equiv> Group 2 (Alt (Seq (Chr CHR ''g'') Empty) (Seq (Chr CHR ''i'') Empty))"

lemma ms_flag_group:
  "ms False ml flag_group s (j, c) =
     (if j < length s \<and> isFlag (s ! j) then [(Suc j, c(2 \<mapsto> (j, Suc j)))] else [])"
  by (auto simp: isFlag_def canonicalize_def)

lemma clear_upd: "(clear [n] c)(n \<mapsto> v) = c(n \<mapsto> v)"
  by (auto simp: clear_def fun_eq_iff)

definition flag_caps :: "nat \<Rightarrow> nat \<Rightarrow> captures \<Rightarrow> captures" where
  "flag_caps j n c = (if n = j then c else c(2 \<mapsto> (n - 1, n)))"

lemma ms_Star_flags':
  "j \<le> length s \<Longrightarrow>
   ms False ml (Star flag_group) s (j, c) =
     map (\<lambda>e. (e, if e = j then c else c(2 \<mapsto> (e - 1, e))))
       (back_to j (length (takeWhile isFlag (drop j s))))"
proof (induction "length s - j" arbitrary: j c)
  case 0
  then have "j = length s" by simp
  then show ?case by (subst ms_Star) (simp add: ms_flag_group del: ms.simps)
next
  case (Suc n)
  then have lt: "j < length s" by simp
  then have d: "drop j s = s ! j # drop (Suc j) s" by (simp add: Cons_nth_drop_Suc)
  show ?case
  proof (cases "isFlag (s ! j)")
    case False
    with lt d show ?thesis by (subst ms_Star) (simp add: ms_flag_group del: ms.simps)
  next
    case True
    from Suc(2) lt have "n = length s - Suc j" "Suc j \<le> length s" by simp_all
    note ih = Suc(1)[OF this, of "c(2 \<mapsto> (j, Suc j))"]
    have "map (\<lambda>e. (e, if e = Suc j then c(2 \<mapsto> (j, Suc j)) else (c(2 \<mapsto> (j, Suc j)))(2 \<mapsto> (e - 1, e))))
            (back_to (Suc j) k) =
          map (\<lambda>e. (e, if e = j then c else c(2 \<mapsto> (e - 1, e)))) (back_to (Suc j) k)" for k
      by (rule map_cong) (auto simp: set_back_to)
    with ih True lt d show ?thesis
      by (subst ms_Star) (simp add: ms_flag_group clear_upd del: ms.simps)
  qed
qed

lemma ms_Star_flags:
  "j \<le> length s \<Longrightarrow>
   ms False ml (Star flag_group) s (j, c) =
     map (\<lambda>e. (e, flag_caps j e c)) (back_to j (length (takeWhile isFlag (drop j s))))"
  unfolding flag_caps_def by (rule ms_Star_flags')

lemma takeWhile_all_length:
  "list_all P xs \<longleftrightarrow> length (takeWhile P xs) = length xs"
  by (induction xs) (auto simp: le_Suc_eq dest: length_takeWhile_le[THEN le_trans, of _ _ _])

lemma isRE_tail:
  assumes "j \<le> length s"
  shows "concat (map (ms False False (Seq Eol Empty) s) (ms False False (Star flag_group) s (j, c))) =
     (if list_all isFlag (drop j s) then [(length s, flag_caps j (length s) c)] else [])"
proof -
  let ?k = "length (takeWhile isFlag (drop j s))"
  let ?f = "\<lambda>e. if e = length s then [(e, flag_caps j e c)] else []"
  have le: "j + ?k \<le> length s"
    using length_takeWhile_le[of isFlag "drop j s"] assms by simp
  have eol: "ms False False (Seq Eol Empty) s (e, c') = (if e = length s then [(e, c')] else [])"
    for e c' by simp
  have "concat (map (ms False False (Seq Eol Empty) s) (ms False False (Star flag_group) s (j, c))) =
        concat (map ?f (back_to j ?k))"
    by (simp add: ms_Star_flags[OF assms] eol comp_def del: ms.simps)
  also have "\<dots> = (if list_all isFlag (drop j s) then [(length s, flag_caps j (length s) c)] else [])"
  proof (cases "list_all isFlag (drop j s)")
    case True
    then have "j + ?k = length s" using assms by (simp add: takeWhile_all_length)
    then have "length s \<in> set (back_to j ?k)" using assms by (simp add: set_back_to)
    from concat_map_single[OF distinct_back_to this, of ?f] True show ?thesis by simp
  next
    case False
    then have "j + ?k \<noteq> length s" using assms by (simp add: takeWhile_all_length)
    with le have "\<forall>x\<in>set (back_to j ?k). ?f x = []" by (auto simp: set_back_to)
    from concat_map_none[OF this] False show ?thesis by simp
  qed
  finally show ?thesis .
qed

abbreviation flags_tail :: regex where
  "flags_tail \<equiv> Seq (Star flag_group) (Seq Eol Empty)"

lemma isRE_flags_tail:
  "j \<le> length s \<Longrightarrow>
   ms False False flags_tail s (j, c) =
     (if list_all isFlag (drop j s) then [(length s, flag_caps j (length s) c)] else [])"
  by (subst ms.simps(7)) (rule isRE_tail)

lemma isRE_slash_tail:
  "ms False False (Seq (Chr CHR ''/'') flags_tail) s (e, c) =
     (if e < length s \<and> s ! e = CHR ''/'' \<and> list_all isFlag (drop (Suc e) s)
      then [(length s, flag_caps (Suc e) (length s) c)] else [])"
proof (cases "e < length s \<and> s ! e = CHR ''/''")
  case True
  then have "ms False False (Seq (Chr CHR ''/'') flags_tail) s (e, c) =
             ms False False flags_tail s (Suc e, c)"
    by (subst ms.simps(7)) (simp add: canonicalize_def del: ms.simps(7))
  with True show ?thesis by (simp add: isRE_flags_tail del: ms.simps)
next
  case False
  then have "ms False False (Seq (Chr CHR ''/'') flags_tail) s (e, c) = []"
    by (subst ms.simps(7)) (auto simp: canonicalize_def simp del: ms.simps(7))
  with False show ?thesis by auto
qed

definition isRE_end :: "string \<Rightarrow> nat \<Rightarrow> mstate list" where
  "isRE_end s e =
     (if e < length s \<and> s ! e = CHR ''/'' \<and> list_all isFlag (drop (Suc e) s)
      then [(length s, flag_caps (Suc e) (length s) (Map.empty(1 \<mapsto> (1, e))))] else [])"

lemma isRE_at_0:
  "matches_at isRE_literal s 0 =
     (if s \<noteq> [] \<and> s ! 0 = CHR ''/''
      then concat (map (isRE_end s)
             (back_to 1 (length (takeWhile (\<lambda>x. \<not> isLineTerminator x) (drop 1 s)))))
      else [])"
proof (cases "s \<noteq> [] \<and> s ! 0 = CHR ''/''")
  case True
  then have l: "1 \<le> length s" by (cases s) auto
  let ?R3 = "Seq (Chr CHR ''/'') flags_tail"
  have g: "ms False False (Group 1 (Seq (Star Dot) Empty)) s (1, Map.empty) =
        map (\<lambda>e. (e, Map.empty(1 \<mapsto> (1, e))))
          (back_to 1 (length (takeWhile (\<lambda>x. \<not> isLineTerminator x) (drop 1 s))))"
    using ms_Star_Dot[OF l, of False False Map.empty] by (simp add: comp_def)
  have "matches_at isRE_literal s 0 =
        ms False False (Seq (Group 1 (Seq (Star Dot) Empty)) ?R3) s (1, Map.empty)"
    using True l
    by (simp add: matches_at_def isRE_literal_def canonicalize_def del: ms.simps(9))
  also have "\<dots> = concat (map (ms False False ?R3 s)
                       (ms False False (Group 1 (Seq (Star Dot) Empty)) s (1, Map.empty)))"
    by (subst ms.simps(7)) (rule refl)
  also have "\<dots> = concat (map (isRE_end s)
             (back_to 1 (length (takeWhile (\<lambda>x. \<not> isLineTerminator x) (drop 1 s)))))"
  proof -
    have e: "ms False False ?R3 s (e, Map.empty(1 \<mapsto> (1, e))) = isRE_end s e" for e
      unfolding isRE_end_def by (rule isRE_slash_tail)
    show ?thesis unfolding g by (simp add: comp_def e del: ms.simps One_nat_def)
  qed
  finally show ?thesis using True by simp
next
  case False
  then show ?thesis
    by (auto simp: matches_at_def isRE_literal_def canonicalize_def)
qed

lemma isRE_after_0: "0 < i \<Longrightarrow> matches_at isRE_literal s i = []"
  by (simp add: matches_at_def isRE_literal_def)

definition slash_shape :: "string \<Rightarrow> string \<Rightarrow> string \<Rightarrow> bool" where
  "slash_shape q body flags =
     (q = CHR ''/'' # body @ CHR ''/'' # flags \<and> list_all isFlag flags \<and>
      list_all (\<lambda>c. \<not> isLineTerminator c) body)"

lemma length_takeWhile_append_ge:
  "list_all P xs \<Longrightarrow> P y \<Longrightarrow> Suc (length xs) \<le> length (takeWhile P (xs @ y # ys))"
  by (induction xs) auto

lemma isRE_shape_matches:
  assumes "slash_shape q body flags"
  shows "matches_at isRE_literal q 0 =
           [(length q, flag_caps (Suc (Suc (length body))) (length q)
                         (Map.empty(1 \<mapsto> (1, Suc (length body)))))]"
proof -
  from assms have q: "q = CHR ''/'' # body @ CHR ''/'' # flags"
    and fl: "list_all isFlag flags" and bd: "list_all (\<lambda>c. \<not> isLineTerminator c) body"
    by (simp_all add: slash_shape_def)
  let ?k = "length (takeWhile (\<lambda>x. \<not> isLineTerminator x) (drop 1 q))"
  let ?e0 = "Suc (length body)"
  have k: "?e0 \<le> ?k"
    using length_takeWhile_append_ge[OF bd, of "CHR ''/''" flags] q
    by (simp add: isLineTerminator_def)
  have mem: "?e0 \<in> set (back_to 1 ?k)" using k by (simp add: set_back_to)
  have qe0: "q ! ?e0 = CHR ''/''" using q by (simp add: nth_append)
  have dr: "drop (Suc ?e0) q = flags" using q by simp
  have e0: "isRE_end q ?e0 =
      [(length q, flag_caps (Suc ?e0) (length q) (Map.empty(1 \<mapsto> (1, ?e0))))]"
    using qe0 dr fl q by (simp add: isRE_end_def)
  have others: "\<forall>e\<in>set (back_to 1 ?k). e \<noteq> ?e0 \<longrightarrow> isRE_end q e = []"
  proof (intro ballI impI)
    fix e assume "e \<in> set (back_to 1 ?k)" and ne: "e \<noteq> ?e0"
    then have e1: "1 \<le> e" by (simp add: set_back_to)
    show "isRE_end q e = []"
    proof (rule ccontr)
      assume "isRE_end q e \<noteq> []"
      then have el: "e < length q" and qe: "q ! e = CHR ''/''"
        and af: "list_all isFlag (drop (Suc e) q)"
        by (auto simp: isRE_end_def split: if_splits)
      show False
      proof (cases "e < ?e0")
        case True
        then have "drop (Suc e) q = drop e body @ CHR ''/'' # flags"
          using q by simp
        with af show False by (simp add: isFlag_def)
      next
        case False
        with ne have gt: "?e0 < e" by simp
        then obtain d where d: "e = Suc (Suc (length body)) + d"
          using less_iff_Suc_add[of ?e0 e] by auto
        with el q have dl: "d < length flags" by simp
        have "q ! e = flags ! d" unfolding q d by (simp add: nth_append)
        with fl dl have "isFlag (q ! e)" by (simp add: list_all_length)
        with qe show False by (simp add: isFlag_def)
      qed
    qed
  qed
  have "matches_at isRE_literal q 0 = concat (map (isRE_end q) (back_to 1 ?k))"
    using q by (simp add: isRE_at_0 del: One_nat_def)
  also have "\<dots> = isRE_end q ?e0"
    by (rule concat_map_single[OF distinct_back_to mem others])
  finally show ?thesis using e0 by simp
qed

lemma take_within_takeWhile:
  "n \<le> length (takeWhile P xs) \<Longrightarrow> list_all P (take n xs)"
proof (induction xs arbitrary: n)
  case Nil
  then show ?case by simp
next
  case (Cons x xs)
  then show ?case by (cases n) (auto split: if_splits)
qed

lemma isRE_matches_shape:
  assumes "matches_at isRE_literal q 0 \<noteq> []"
  shows "\<exists>body flags. slash_shape q body flags"
proof -
  let ?k = "length (takeWhile (\<lambda>x. \<not> isLineTerminator x) (drop 1 q))"
  from assms have q0: "q \<noteq> []" "q ! 0 = CHR ''/''"
    and c: "concat (map (isRE_end q) (back_to 1 ?k)) \<noteq> []"
    by (simp_all add: isRE_at_0 split: if_splits del: One_nat_def)
  from c obtain e where e: "e \<in> set (back_to 1 ?k)" and ne: "isRE_end q e \<noteq> []"
    by auto
  from e have e1: "1 \<le> e" and ek: "e \<le> 1 + ?k" by (simp_all add: set_back_to)
  from ne have el: "e < length q" and qe: "q ! e = CHR ''/''"
    and af: "list_all isFlag (drop (Suc e) q)"
    by (simp_all add: isRE_end_def split: if_splits)
  from q0 obtain rest where rest: "q = CHR ''/'' # rest" by (cases q) auto
  from e1 obtain n where n: "e = Suc n" by (cases e) auto
  let ?body = "take n rest"
  have "n \<le> length (takeWhile (\<lambda>x. \<not> isLineTerminator x) rest)"
    using ek rest n by simp
  then have bd: "list_all (\<lambda>c. \<not> isLineTerminator c) ?body"
    by (rule take_within_takeWhile)
  have nl: "n < length rest" using el rest n by simp
  have "rest = take n rest @ rest ! n # drop (Suc n) rest"
    using nl by (simp add: id_take_nth_drop[symmetric])
  moreover have "rest ! n = CHR ''/''" using qe rest n by simp
  moreover have "drop (Suc n) rest = drop (Suc e) q" using rest n by simp
  ultimately have "q = CHR ''/'' # ?body @ CHR ''/'' # drop (Suc e) q"
    using rest by simp
  with bd af have "slash_shape q ?body (drop (Suc e) q)" by (simp add: slash_shape_def)
  then show ?thesis by blast
qed

lemma slash_shape_unique:
  assumes "slash_shape q b f" and "slash_shape q b' f'"
  shows "b' = b \<and> f' = f"
proof -
  from isRE_shape_matches[OF assms(1)] isRE_shape_matches[OF assms(2)]
  have "flag_caps (Suc (Suc (length b'))) (length q) (Map.empty(1 \<mapsto> (1, Suc (length b')))) 1 =
        flag_caps (Suc (Suc (length b))) (length q) (Map.empty(1 \<mapsto> (1, Suc (length b)))) 1"
    by simp
  then have "length b' = length b" by (simp add: flag_caps_def split: if_splits)
  with assms show ?thesis by (simp add: slash_shape_def)
qed

lemma match_from_here:
  "i \<le> length s \<Longrightarrow> matches_at re s i = st # rest \<Longrightarrow> match_from re s i = Some (i, st)"
  by (simp add: match_from.simps[of re s i])

lemma str_match_shape:
  assumes "slash_shape q body flags"
  shows "\<exists>isRE. str_match q isRE_literal = Some isRE \<and> capture isRE 1 = Some body \<and>
           capture isRE 2 = (if flags = [] then None else Some [last flags])"
proof -
  from assms have q: "q = CHR ''/'' # body @ CHR ''/'' # flags" by (simp add: slash_shape_def)
  let ?st = "(length q, flag_caps (Suc (Suc (length body))) (length q)
                         (Map.empty(1 \<mapsto> (1, Suc (length body)))))"
  have "match_from isRE_literal q 0 = Some (0, ?st)"
    by (rule match_from_here) (simp_all add: isRE_shape_matches[OF assms])
  then have m: "str_match q isRE_literal = Some (result_of q 0 ?st)"
    by (simp add: str_match_def exec_def isRE_literal_def)
  have c1: "capture (result_of q 0 ?st) 1 = Some body"
    by (simp add: result_of_def flag_caps_def substring_def q)
  have c2: "capture (result_of q 0 ?st) 2 = (if flags = [] then None else Some [last flags])"
  proof (cases "flags = []")
    case True
    then show ?thesis by (simp add: result_of_def flag_caps_def q)
  next
    case False
    then have "drop (length body + length flags) (body @ CHR ''/'' # flags) = [last flags]"
      by (cases flags rule: rev_cases) simp_all
    with False show ?thesis
      by (simp add: result_of_def flag_caps_def substring_def q)
  qed
  from m c1 c2 show ?thesis by blast
qed

lemma str_match_no_shape:
  assumes "\<forall>body flags. \<not> slash_shape q body flags"
  shows "str_match q isRE_literal = None"
proof -
  have "matches_at isRE_literal q k = []" for k
  proof (cases "k = 0")
    case True
    with assms isRE_matches_shape[of q] show ?thesis by auto
  next
    case False
    then show ?thesis by (simp add: isRE_after_0)
  qed
  then have "match_from isRE_literal q 0 = None" by (simp add: match_from_None_iff)
  then show ?thesis by (simp add: str_match_def exec_def isRE_literal_def)
qed

lemma g_literal:
  "new_RegExp ''g'' [] =
     Inr \<lparr>source = ''g'', pattern = Seq (Chr CHR ''g'') Empty, global = False,
          ignoreCase = False, multiline = False, lastIndex = 0\<rparr>"
  "search ''g'' \<lparr>source = ''g'', pattern = Seq (Chr CHR ''g'') Empty, global = False,
          ignoreCase = False, multiline = False, lastIndex = 0\<rparr> = 0"
  "search ''i'' \<lparr>source = ''g'', pattern = Seq (Chr CHR ''g'') Empty, global = False,
          ignoreCase = False, multiline = False, lastIndex = 0\<rparr> = -1"
  by code_simp+

lemma getQueryRegExp_shape:
  assumes "slash_shape q body flags"
  shows "getQueryRegExp q =
           new_RegExp body (if flags = [] \<or> last flags = CHR ''g'' then ''g'' else ''ig'')"
proof -
  from str_match_shape[OF assms] obtain isRE where
    m: "str_match q isRE_literal = Some isRE" and c1: "capture isRE 1 = Some body"
    and c2: "capture isRE 2 = (if flags = [] then None else Some [last flags])" by blast
  show ?thesis
  proof (cases "flags = []")
    case True
    with m c1 c2 show ?thesis by (simp add: getQueryRegExp_def g_literal)
  next
    case False
    from assms have "list_all isFlag flags" by (simp add: slash_shape_def)
    with False have "isFlag (last flags)" by (simp add: list_all_iff)
    then consider "last flags = CHR ''g''" | "last flags = CHR ''i''" by (auto simp: isFlag_def)
    then show ?thesis
    proof cases
      case 1
      with m c1 c2 False show ?thesis by (simp add: getQueryRegExp_def g_literal)
    next
      case 2
      with m c1 c2 False show ?thesis by (simp add: getQueryRegExp_def g_literal)
    qed
  qed
qed

section \<open>Queries that are not patterns\<close>

definition escaped :: "string \<Rightarrow> string" where
  "escaped q = concat (map (\<lambda>c. if c \<in> set special_chars then [bslash, c] else [c]) q)"

definition occurs_at :: "bool \<Rightarrow> string \<Rightarrow> string \<Rightarrow> nat \<Rightarrow> bool" where
  "occurs_at ic q s i =
     (i + length q \<le> length s \<and>
      map (canonicalize ic) (substring s i (i + length q)) = map (canonicalize ic) q)"

lemma seq_of_Cons [simp]: "seq_of (r # rs) = Seq r (seq_of rs)"
  by (simp add: seq_of_def)

lemma seq_of_Nil [simp]: "seq_of [] = Empty"
  by (simp add: seq_of_def)

lemma ms_literal:
  "i \<le> length s \<Longrightarrow>
   ms ic ml (seq_of (map Chr q)) s (i, c) =
     (if occurs_at ic q s i then [(i + length q, c)] else [])"
proof (induction q arbitrary: i)
  case Nil
  then show ?case by (simp add: occurs_at_def substring_def)
next
  case (Cons x q)
  show ?case
  proof (cases "i < length s")
    case False
    then show ?thesis by (simp add: occurs_at_def)
  next
    case True
    then have d: "drop i s = s ! i # drop (Suc i) s" by (simp add: Cons_nth_drop_Suc)
    have "occurs_at ic (x # q) s i \<longleftrightarrow>
            canonicalize ic (s ! i) = canonicalize ic x \<and> occurs_at ic q s (Suc i)"
      using True by (auto simp: occurs_at_def substring_def d)
    then show ?thesis using True by (simp add: Cons.IH)
  qed
qed

lemma special_chars_set:
  "c \<in> set special_chars \<longleftrightarrow>
     c = CHR ''('' \<or> c = CHR '')'' \<or> c = CHR ''{'' \<or> c = CHR ''}'' \<or> c = CHR ''['' \<or>
     c = CHR '']'' \<or> c = CHR ''.'' \<or> c = CHR ''^'' \<or> c = CHR ''$'' \<or> c = CHR ''|'' \<or>
     c = CHR ''?'' \<or> c = CHR ''+'' \<or> c = CHR ''*'' \<or> c = bslash"
  by (simp add: special_chars_def)

lemma atom_escape_special:
  "c \<in> set special_chars \<Longrightarrow> atom_escape c = Inr (Chr c)"
  unfolding special_chars_set
  by (elim disjE; simp add: atom_escape_def control_escape_def class_escape_def isAlnum_def
        in_range_def)

lemma parse_step_plain:
  "mode st = Normal \<Longrightarrow> c \<notin> set special_chars \<Longrightarrow> parse_step c st = Inr (push Atom (Chr c) st)"
  by (simp add: parse_step_def parse_normal_def special_chars_set)

lemma parse_step_bslash:
  "mode st = Normal \<Longrightarrow> parse_step bslash st = Inr (st\<lparr>mode := Escape\<rparr>)"
  by (simp add: parse_step_def parse_normal_def)

lemma parse_step_escaped:
  "c \<in> set special_chars \<Longrightarrow>
     parse_step c (st\<lparr>mode := Escape\<rparr>) = Inr (push Atom (Chr c) st)"
  by (simp add: parse_step_def atom_escape_special push_def)

definition push_chars :: "string \<Rightarrow> pstate \<Rightarrow> pstate" where
  "push_chars q st =
     st\<lparr>cur := (cur st)\<lparr>terms := rev (map (\<lambda>c. (Atom, Chr c)) q) @ terms (cur st)\<rparr>\<rparr>"

lemma parse_chars_escaped:
  "mode st = Normal \<Longrightarrow> parse_chars (escaped q) st = Inr (push_chars q st)"
proof (induction q arbitrary: st)
  case Nil
  then show ?case by (simp add: escaped_def push_chars_def)
next
  case (Cons c q)
  have e: "escaped (c # q) = (if c \<in> set special_chars then [bslash, c] else [c]) @ escaped q"
    by (simp add: escaped_def)
  have m: "mode (push Atom (Chr c) st) = Normal" by (simp add: push_def)
  have p: "push_chars q (push Atom (Chr c) st) = push_chars (c # q) st"
    using Cons.prems by (simp add: push_chars_def push_def)
  show ?case
  proof (cases "c \<in> set special_chars")
    case True
    with Cons.prems show ?thesis
      by (simp add: e parse_step_bslash parse_step_escaped Cons.IH[OF m] p)
  next
    case False
    with Cons.prems show ?thesis
      by (simp add: e parse_step_plain Cons.IH[OF m] p)
  qed
qed

lemma parse_pattern_escaped: "parse_pattern (escaped q) = Inr (seq_of (map Chr q))"
proof -
  have "parse_chars (escaped q) initial_pstate = Inr (push_chars q initial_pstate)"
    by (rule parse_chars_escaped) (simp add: initial_pstate_def)
  then show ?thesis
    by (simp add: parse_pattern_def push_chars_def initial_pstate_def close_frame_def
          rev_map comp_def)
qed

lemma new_RegExp_escaped:
  "new_RegExp (escaped q) ''gi'' = Inr (compiled (escaped q) (seq_of (map Chr q)) True)"
  by (simp add: new_RegExp_def parse_pattern_escaped compiled_def)

lemma in_range_same: "in_range c (x, x) \<longleftrightarrow> c = x"
  by (auto simp: in_range_def)

lemma class_member_singletons:
  "class_member False (map (\<lambda>c. (c, c)) cs) c \<longleftrightarrow> c \<in> set cs"
  by (induction cs) (auto simp: class_member_def in_range_same)

lemma escape_literal_at:
  "matches_at escape_literal s i =
     (if i < length s \<and> s ! i \<in> set special_chars
      then [(Suc i, Map.empty(1 \<mapsto> (i, Suc i)))] else [])"
  by (simp add: matches_at_def escape_literal_def class_member_singletons)

lemma substring_split:
  assumes "a \<le> b" "b \<le> c"
  shows "substring s a c = substring s a b @ substring s b c"
proof -
  from assms have "c - a = (b - a) + (c - b)" by simp
  then have "take (c - a) (drop a s) =
             take (b - a) (drop a s) @ take (c - b) (drop (b - a) (drop a s))"
    by (simp only: take_add)
  moreover have "drop (b - a) (drop a s) = drop b s" using assms by simp
  ultimately show ?thesis by (simp add: substring_def)
qed

lemma drop_split:
  assumes "a \<le> b"
  shows "drop a s = substring s a b @ drop b s"
proof -
  have "drop a s = take (b - a) (drop a s) @ drop (b - a) (drop a s)"
    by (rule append_take_drop_id[symmetric])
  moreover have "drop (b - a) (drop a s) = drop b s" using assms by simp
  ultimately show ?thesis by (simp add: substring_def)
qed

lemma replace_from_split:
  assumes "copied \<le> li"
  shows "replace_from re rp s copied li = substring s copied li @ replace_from re rp s li li"
proof (cases "match_from re s li")
  case None
  with drop_split[OF assms, of s] show ?thesis
    by (simp add: replace_from.simps[of re rp s copied li] replace_from.simps[of re rp s li li])
next
  case (Some a)
  obtain i e c where a: "a = (i, (e, c))" by (cases a) auto
  from match_from_bounds[of re s li i e c] Some a have b: "li \<le> i" by simp
  from substring_split[OF assms b, of s] Some a show ?thesis
    by (simp add: replace_from.simps[of re rp s copied li] replace_from.simps[of re rp s li li])
qed

lemma replace_escape:
  "li \<le> length s \<Longrightarrow>
   replace_from escape_literal [RText [bslash], RCapture 1] s li li = escaped (drop li s)"
proof (induction "length s - li" arbitrary: li)
  case 0
  then have "match_from escape_literal s li = None"
    by (simp add: match_from_None_iff escape_literal_at)
  with 0 show ?case
    by (simp add: replace_from.simps[of _ _ s li li] escaped_def)
next
  case (Suc n)
  then have lt: "li < length s" by simp
  then have d: "drop li s = s ! li # drop (Suc li) s" by (simp add: Cons_nth_drop_Suc)
  from Suc(2) lt have "n = length s - Suc li" "Suc li \<le> length s" by simp_all
  note ih = Suc(1)[OF this]
  let ?rp = "[RText [bslash], RCapture 1]"
  show ?case
  proof (cases "s ! li \<in> set special_chars")
    case True
    with lt have "match_from escape_literal s li =
                  Some (li, (Suc li, Map.empty(1 \<mapsto> (li, Suc li))))"
      by (simp add: match_from.simps[of _ s li] escape_literal_at)
    then have "replace_from escape_literal ?rp s li li =
               [bslash, s ! li] @ replace_from escape_literal ?rp s (Suc li) (Suc li)"
      using lt
      by (simp add: replace_from.simps[of _ _ s li li] result_of_def substring_def
            take_Suc_conv_app_nth d)
    with ih True show ?thesis by (simp add: d escaped_def)
  next
    case False
    with lt have m: "match_from escape_literal s li = match_from escape_literal s (Suc li)"
      by (simp add: match_from.simps[of _ s li] escape_literal_at)
    have "replace_from escape_literal ?rp s li li = replace_from escape_literal ?rp s li (Suc li)"
      by (simp add: replace_from.simps[of _ _ s li li] replace_from.simps[of _ _ s li "Suc li"] m)
    also have "\<dots> = substring s li (Suc li) @ replace_from escape_literal ?rp s (Suc li) (Suc li)"
      by (rule replace_from_split) simp
    also have "substring s li (Suc li) = [s ! li]"
      using lt by (simp add: substring_def d)
    finally show ?thesis using ih False by (simp add: d escaped_def)
  qed
qed

lemma str_replace_escape:
  "str_replace q escape_literal [RText [bslash], RCapture 1] = escaped q"
  using replace_escape[of 0 q] by (simp add: str_replace_def escape_literal_def)

lemma getQueryRegExp_literal:
  assumes "\<forall>body flags. \<not> slash_shape q body flags"
  shows "getQueryRegExp q = Inr (compiled (escaped q) (seq_of (map Chr q)) True)"
  using str_match_no_shape[OF assms]
  by (simp add: getQueryRegExp_def str_replace_escape new_RegExp_escaped del: One_nat_def)

lemma search_first:
  "search s re = int j \<longleftrightarrow>
     (j \<le> length s \<and> matches_at re s j \<noteq> [] \<and> (\<forall>k<j. matches_at re s k = []))"
proof
  assume "search s re = int j"
  then obtain st where "match_from re s 0 = Some (j, st)"
    by (auto simp: search_def split: option.splits)
  from match_from_Some[OF this] show "j \<le> length s \<and> matches_at re s j \<noteq> [] \<and> (\<forall>k<j. matches_at re s k = [])"
    by auto
next
  assume a: "j \<le> length s \<and> matches_at re s j \<noteq> [] \<and> (\<forall>k<j. matches_at re s k = [])"
  then have "match_from re s 0 \<noteq> None" by (auto simp: match_from_None_iff)
  then obtain i st where m: "match_from re s 0 = Some (i, st)" by auto
  from match_from_Some[OF m] a have "i = j"
    by (metis list.distinct(1) linorder_neqE_nat le0)
  with m show "search s re = int j" by (simp add: search_def)
qed

lemma search_none:
  "search s re = -1 \<longleftrightarrow> (\<forall>k\<le>length s. matches_at re s k = [])"
proof -
  have "search s re = -1 \<longleftrightarrow> match_from re s 0 = None"
    by (auto simp: search_def split: option.splits)
  then show ?thesis by (simp add: match_from_None_iff)
qed

lemma literal_at:
  "i \<le> length s \<Longrightarrow>
   matches_at (compiled src (seq_of (map Chr q)) ic) s i =
     (if occurs_at ic q s i then [(i + length q, Map.empty)] else [])"
  by (simp add: matches_at_def ms_literal)

lemma occurs_at_le: "occurs_at ic q s i \<Longrightarrow> i \<le> length s"
  by (simp add: occurs_at_def)

text \<open>
  Claim C1: for every query that does not have the slash-delimited \<^verbatim>\<open>/body/flags\<close> shape,
  the compiler puts a backslash before each of the characters
  \<^verbatim>\<open>( ) { } [ ] . ^ $ | ? + * \\<close> and compiles the result case-insensitively with the global
  flag, so that matching finds exactly the literal occurrences of the query: the query
  \<^verbatim>\<open>a.b\<close> matches the text \<^verbatim>\<open>a.b\<close> and not \<^verbatim>\<open>axb\<close>.

  \<open>escaped q\<close> is the query with the backslashes added and \<open>occurs_at True q s i\<close> says that
  the text \<open>s\<close> has the characters of \<open>q\<close> at \<open>i\<close>, up to case. The compiled object has the
  escaped text as its source, matches at a position exactly when the query occurs there, and
  \<^verbatim>\<open>search\<close> gives the first occurrence, or -1 when there is none.
\<close>

theorem literal_query:
  assumes "\<forall>body flags. \<not> slash_shape q body flags"
  shows "getQueryRegExp q = Inr (compiled (escaped q) (seq_of (map Chr q)) True)
       \<and> (\<forall>s i. i \<le> length s \<longrightarrow>
             matches_at (compiled (escaped q) (seq_of (map Chr q)) True) s i =
               (if occurs_at True q s i then [(i + length q, Map.empty)] else []))
       \<and> (\<forall>s j. search s (compiled (escaped q) (seq_of (map Chr q)) True) = int j \<longleftrightarrow>
             occurs_at True q s j \<and> (\<forall>k<j. \<not> occurs_at True q s k))
       \<and> (\<forall>s. search s (compiled (escaped q) (seq_of (map Chr q)) True) = -1 \<longleftrightarrow>
             (\<forall>k. \<not> occurs_at True q s k))"
proof (intro conjI allI impI)
  show "getQueryRegExp q = Inr (compiled (escaped q) (seq_of (map Chr q)) True)"
    by (rule getQueryRegExp_literal[OF assms])
next
  fix s :: string and i assume "i \<le> length s"
  then show "matches_at (compiled (escaped q) (seq_of (map Chr q)) True) s i =
               (if occurs_at True q s i then [(i + length q, Map.empty)] else [])"
    by (rule literal_at)
next
  fix s j
  let ?R = "compiled (escaped q) (seq_of (map Chr q)) True"
  show "search s ?R = int j \<longleftrightarrow> occurs_at True q s j \<and> (\<forall>k<j. \<not> occurs_at True q s k)"
  proof
    assume "search s ?R = int j"
    then have j: "j \<le> length s" and m: "matches_at ?R s j \<noteq> []"
      and n: "\<forall>k<j. matches_at ?R s k = []" by (simp_all add: search_first)
    from m j have "occurs_at True q s j" by (simp add: literal_at split: if_splits)
    moreover have "\<not> occurs_at True q s k" if "k < j" for k
      using n that j by (auto simp: literal_at split: if_splits)
    ultimately show "occurs_at True q s j \<and> (\<forall>k<j. \<not> occurs_at True q s k)" by blast
  next
    assume a: "occurs_at True q s j \<and> (\<forall>k<j. \<not> occurs_at True q s k)"
    then have j: "j \<le> length s" by (auto dest: occurs_at_le)
    with a have "matches_at ?R s j \<noteq> []" "\<forall>k<j. matches_at ?R s k = []"
      by (simp_all add: literal_at)
    with j show "search s ?R = int j" by (simp add: search_first)
  qed
next
  fix s
  let ?R = "compiled (escaped q) (seq_of (map Chr q)) True"
  show "search s ?R = -1 \<longleftrightarrow> (\<forall>k. \<not> occurs_at True q s k)"
  proof
    assume "search s ?R = -1"
    then have n: "\<forall>k\<le>length s. matches_at ?R s k = []" by (simp add: search_none)
    show "\<forall>k. \<not> occurs_at True q s k"
    proof (intro allI notI)
      fix k assume o: "occurs_at True q s k"
      from n occurs_at_le[OF o] have "matches_at ?R s k = []" by blast
      with o occurs_at_le[OF o] show False by (simp add: literal_at)
    qed
  next
    assume "\<forall>k. \<not> occurs_at True q s k"
    then show "search s ?R = -1" by (simp add: search_none literal_at)
  qed
qed

theorem literal_query_witness:
  "getQueryRegExp ''a.b'' =
     Inr (compiled [CHR ''a'', bslash, CHR ''.'', CHR ''b''] (seq_of (map Chr ''a.b'')) True)
   \<and> search ''a.b'' (compiled (escaped ''a.b'') (seq_of (map Chr ''a.b'')) True) = 0
   \<and> search ''xA.B'' (compiled (escaped ''a.b'') (seq_of (map Chr ''a.b'')) True) = 1
   \<and> search ''axb'' (compiled (escaped ''a.b'') (seq_of (map Chr ''a.b'')) True) = -1"
proof -
  let ?R = "compiled (escaped ''a.b'') (seq_of (map Chr ''a.b'')) True"
  have h: "\<forall>body flags. \<not> slash_shape ''a.b'' body flags" by (simp add: slash_shape_def)
  note t = literal_query[OF h]
  have e: "escaped ''a.b'' = [CHR ''a'', bslash, CHR ''.'', CHR ''b'']" by code_simp
  have o0: "occurs_at True ''a.b'' ''a.b'' 0 \<and> (\<forall>k<0. \<not> occurs_at True ''a.b'' ''a.b'' k)"
    by (simp add: occurs_at_def substring_def)
  have o1: "occurs_at True ''a.b'' ''xA.B'' 1 \<and> (\<forall>k<1. \<not> occurs_at True ''a.b'' ''xA.B'' k)"
    by (simp add: occurs_at_def substring_def canonicalize_def toUpperCase_char_def
          lower_latin1_def upper_latin1_def)
  have o2: "\<forall>k. \<not> occurs_at True ''a.b'' ''axb'' k"
  proof (intro allI notI)
    fix k :: nat
    assume o: "occurs_at True ''a.b'' ''axb'' k"
    then have "k = 0" by (simp add: occurs_at_def)
    with o show False
      by (simp add: occurs_at_def substring_def canonicalize_def toUpperCase_char_def
          lower_latin1_def upper_latin1_def)
  qed
  from t have g: "getQueryRegExp ''a.b'' = Inr ?R" by (rule conjunct1)
  from t have s: "\<And>s j. search s ?R = int j \<longleftrightarrow>
             occurs_at True ''a.b'' s j \<and> (\<forall>k<j. \<not> occurs_at True ''a.b'' s k)"
    and n: "\<And>s. search s ?R = -1 \<longleftrightarrow> (\<forall>k. \<not> occurs_at True ''a.b'' s k)"
    by blast+
  from s[of "''a.b''" 0] o0 have s0: "search ''a.b'' ?R = 0" by simp
  from s[of "''xA.B''" 1] o1 have s1: "search ''xA.B'' ?R = 1" by simp
  from n[of "''axb''"] o2 have s2: "search ''axb'' ?R = -1" by simp
  from g s0 s1 s2 show ?thesis by (simp add: e)
qed

lemma takeWhile_stop:
  "a \<notin> set ys \<Longrightarrow> takeWhile (\<lambda>x. x \<noteq> a) (ys @ a # zs) = ys"
  by (induction ys) auto

lemma last_separator:
  assumes "xs @ a # ys = xs' @ a # ys'" and "a \<notin> set ys" and "a \<notin> set ys'"
  shows "ys' = ys"
proof -
  have 1: "takeWhile (\<lambda>x. x \<noteq> a) (rev ys @ a # rev xs) = rev ys"
    using assms(2) by (intro takeWhile_stop) simp
  have 2: "takeWhile (\<lambda>x. x \<noteq> a) (rev ys' @ a # rev xs') = rev ys'"
    using assms(3) by (intro takeWhile_stop) simp
  from assms(1) have "rev (xs @ a # ys) = rev (xs' @ a # ys')" by (rule arg_cong)
  then have "rev ys @ a # rev xs = rev ys' @ a # rev xs'" by simp
  with 1 2 have "rev ys' = rev ys" by simp
  then show ?thesis by simp
qed

lemma slash_not_flag: "list_all isFlag flags \<Longrightarrow> CHR ''/'' \<notin> set flags"
proof
  assume "list_all isFlag flags" and "CHR ''/'' \<in> set flags"
  then have "isFlag CHR ''/''" by (simp add: list_all_iff)
  then show False by (simp add: isFlag_def)
qed

lemma other_flag_no_shape:
  assumes "q = pre @ CHR ''/'' # fl" and "CHR ''/'' \<notin> set fl" and "\<not> list_all isFlag fl"
  shows "\<not> slash_shape q body flags"
proof
  assume sh: "slash_shape q body flags"
  from sh have q: "q = (CHR ''/'' # body) @ CHR ''/'' # flags"
    by (simp add: slash_shape_def)
  from sh have f: "list_all isFlag flags"
    by (simp add: slash_shape_def)
  from f have nf: "CHR ''/'' \<notin> set flags" by (rule slash_not_flag)
  have eq: "pre @ CHR ''/'' # fl = (CHR ''/'' # body) @ CHR ''/'' # flags"
    by (rule trans[OF assms(1)[symmetric] q])
  have "flags = fl"
    by (rule last_separator[OF eq assms(2) nf])
  with f assms(3) show False by simp
qed

lemma new_RegExp_global:
  "new_RegExp p fl = Inr re \<Longrightarrow>
     global re = (CHR ''g'' \<in> set fl) \<and> ignoreCase re = (CHR ''i'' \<in> set fl) \<and>
     multiline re = (CHR ''m'' \<in> set fl) \<and> lastIndex re = 0 \<and> source re = p"
  by (auto simp: new_RegExp_def split: if_splits sum.splits)

lemma getQueryRegExp_compiled:
  assumes "getQueryRegExp q = Inr re"
  shows "re = compiled (source re) (pattern re) (ignoreCase re)"
proof -
  have "global re \<and> \<not> multiline re \<and> lastIndex re = 0"
  proof (cases "\<exists>body flags. slash_shape q body flags")
    case True
    then obtain body flags where "slash_shape q body flags" by blast
    from getQueryRegExp_shape[OF this] assms
    have "new_RegExp body (if flags = [] \<or> last flags = CHR ''g'' then ''g'' else ''ig'') = Inr re"
      by simp
    from new_RegExp_global[OF this] show ?thesis by (simp split: if_splits)
  next
    case False
    then have "getQueryRegExp q = Inr (compiled (escaped q) (seq_of (map Chr q)) True)"
      by (simp add: getQueryRegExp_literal)
    with assms show ?thesis by auto
  qed
  then show ?thesis by (cases re) (simp add: compiled_def)
qed

text \<open>
  Claim C10: only queries that match \<^verbatim>\<open>^/(.*)/(g|i)*$\<close>, that is slash-delimited with every
  flag character one of \<^verbatim>\<open>g\<close> and \<^verbatim>\<open>i\<close>, are treated as regular expressions; a query with
  any other trailing flag character, such as \<^verbatim>\<open>/a/m\<close>, fails the shape test and is treated
  whole, slashes included, as a literal case-insensitive substring query.

  \<open>slash_shape q body flags\<close> says that \<open>q\<close> is a slash, a body without line terminator
  (the dot of the literal does not match one), a slash and flags among \<^verbatim>\<open>g\<close> and \<^verbatim>\<open>i\<close>. The
  literal matches exactly the queries of this shape; those are compiled from their body, all
  others from their escaped text with the flags \<^verbatim>\<open>gi\<close>. When a character after the last
  slash is not a flag the query is not of the shape.
\<close>

theorem shape_decides:
  "((\<exists>isRE. str_match q isRE_literal = Some isRE) \<longleftrightarrow> (\<exists>body flags. slash_shape q body flags))
   \<and> (slash_shape q body flags \<longrightarrow>
        getQueryRegExp q =
          new_RegExp body (if flags = [] \<or> last flags = CHR ''g'' then ''g'' else ''ig''))
   \<and> ((\<forall>body flags. \<not> slash_shape q body flags) \<longrightarrow>
        getQueryRegExp q = Inr (compiled (escaped q) (seq_of (map Chr q)) True))
   \<and> (q = pre @ CHR ''/'' # fl \<and> CHR ''/'' \<notin> set fl \<and> \<not> list_all isFlag fl \<longrightarrow>
        getQueryRegExp q = Inr (compiled (escaped q) (seq_of (map Chr q)) True))
   \<and> getQueryRegExp ''/a/m'' = Inr (compiled ''/a/m'' (seq_of (map Chr ''/a/m'')) True)
   \<and> search ''x/A/My'' (compiled ''/a/m'' (seq_of (map Chr ''/a/m'')) True) = 1
   \<and> search ''a'' (compiled ''/a/m'' (seq_of (map Chr ''/a/m'')) True) = -1"
proof (intro conjI impI)
  show "(\<exists>isRE. str_match q isRE_literal = Some isRE) \<longleftrightarrow> (\<exists>body flags. slash_shape q body flags)"
  proof
    assume "\<exists>isRE. str_match q isRE_literal = Some isRE"
    then obtain isRE where m: "str_match q isRE_literal = Some isRE" ..
    show "\<exists>body flags. slash_shape q body flags"
    proof (rule ccontr)
      assume "\<not> (\<exists>body flags. slash_shape q body flags)"
      then have "\<forall>body flags. \<not> slash_shape q body flags" by blast
      from str_match_no_shape[OF this] m show False by simp
    qed
  next
    assume "\<exists>body flags. slash_shape q body flags"
    then show "\<exists>isRE. str_match q isRE_literal = Some isRE"
      using str_match_shape by blast
  qed
next
  assume "slash_shape q body flags"
  then show "getQueryRegExp q =
          new_RegExp body (if flags = [] \<or> last flags = CHR ''g'' then ''g'' else ''ig'')"
    by (rule getQueryRegExp_shape)
next
  assume "\<forall>body flags. \<not> slash_shape q body flags"
  then show "getQueryRegExp q = Inr (compiled (escaped q) (seq_of (map Chr q)) True)"
    by (rule getQueryRegExp_literal)
next
  assume "q = pre @ CHR ''/'' # fl \<and> CHR ''/'' \<notin> set fl \<and> \<not> list_all isFlag fl"
  then have "\<forall>body flags. \<not> slash_shape q body flags"
    using other_flag_no_shape by blast
  then show "getQueryRegExp q = Inr (compiled (escaped q) (seq_of (map Chr q)) True)"
    by (rule getQueryRegExp_literal)
next
  show "getQueryRegExp ''/a/m'' = Inr (compiled ''/a/m'' (seq_of (map Chr ''/a/m'')) True)"
    by code_simp
  show "search ''x/A/My'' (compiled ''/a/m'' (seq_of (map Chr ''/a/m'')) True) = 1"
    by code_simp
  show "search ''a'' (compiled ''/a/m'' (seq_of (map Chr ''/a/m'')) True) = -1"
    by code_simp
qed

theorem shape_decides_witness:
  "slash_shape ''/a.c/i'' ''a.c'' ''i''
   \<and> getQueryRegExp ''/a.c/i'' =
       Inr (compiled ''a.c'' (Seq (Chr CHR ''a'') (Seq Dot (Seq (Chr CHR ''c'') Empty))) True)
   \<and> getQueryRegExp ''/a/im'' = Inr (compiled ''/a/im'' (seq_of (map Chr ''/a/im'')) True)"
proof -
  have h: "slash_shape ''/a.c/i'' ''a.c'' ''i''"
    by (simp add: slash_shape_def isFlag_def isLineTerminator_def)
  have n: "new_RegExp ''a.c'' ''ig'' =
       Inr (compiled ''a.c'' (Seq (Chr CHR ''a'') (Seq Dot (Seq (Chr CHR ''c'') Empty))) True)"
    by code_simp
  have e: "escaped ''/a/im'' = ''/a/im''" by code_simp
  have k: "''/a/im'' = ''/a'' @ CHR ''/'' # ''im'' \<and> CHR ''/'' \<notin> set ''im'' \<and> \<not> list_all isFlag ''im''"
    by (simp add: isFlag_def)
  note t = shape_decides[of "''/a.c/i''" "''a.c''" "''i''", THEN conjunct2, THEN conjunct1,
             rule_format, OF h]
  note u = shape_decides[of "''/a/im''" _ _ "''/a''" "''im''", THEN conjunct2, THEN conjunct2,
             THEN conjunct2, THEN conjunct1, rule_format, OF k]
  from t have "getQueryRegExp ''/a.c/i'' = new_RegExp ''a.c'' ''ig''" by simp
  with n have "getQueryRegExp ''/a.c/i'' =
       Inr (compiled ''a.c'' (Seq (Chr CHR ''a'') (Seq Dot (Seq (Chr CHR ''c'') Empty))) True)"
    by simp
  moreover from u e have "getQueryRegExp ''/a/im'' = Inr (compiled ''/a/im'' (seq_of (map Chr ''/a/im'')) True)"
    by simp
  ultimately show ?thesis using h by blast
qed

text \<open>Position \<open>i\<close> is where the result \<open>r\<close> starts or lies inside its matched text.\<close>

definition covers :: "match_result \<Rightarrow> nat \<Rightarrow> bool" where
  "covers r i = (index r \<le> i \<and> (i = index r \<or> i < index r + length (matched r)))"

text \<open>The scan of a global pattern leaves no match out: every position from \<^verbatim>\<open>lastIndex\<close> on
  where the pattern matches is the start of a reported match or inside one.\<close>

lemma scan_loop_complete:
  assumes "scan_loop U c l q acc = Some (Inr (found, q'))" and "global q"
  shows "\<exists>new. found = acc @ new \<and>
           (\<forall>i. lastIndex q \<le> i \<and> i \<le> length c \<and> matches_at q c i \<noteq> [] \<longrightarrow>
                (\<exists>r m. m \<in> set new \<and> is_match q c r \<and> loop_body U c l r = Inr m \<and> covers r i))"
proof -
  let ?Q = "\<lambda>U c l q new i. \<exists>r m. m \<in> set new \<and> is_match q c r \<and> loop_body U c l r = Inr m \<and> covers r i"
  let ?P = "\<lambda>U c l q (acc :: search_match list) (y :: error + search_match list \<times> regexp).
     global q \<longrightarrow> (\<forall>found q'. y = Inr (found, q') \<longrightarrow>
        (\<exists>new. found = acc @ new \<and>
           (\<forall>i. lastIndex q \<le> i \<and> i \<le> length c \<and> matches_at q c i \<noteq> [] \<longrightarrow> ?Q U c l q new i)))"
  have step: "?P U c l q acc y"
    if ih: "\<And>U c l q acc y. f U c l q acc = Some y \<Longrightarrow> ?P U c l q acc y"
    and unf: "(case exec q c of
                 (queryExpr', None) \<Rightarrow> Some (Inr (acc, queryExpr'))
               | (queryExpr', Some match) \<Rightarrow>
                   (case loop_body U c l match of
                      Inl e \<Rightarrow> Some (Inl e)
                    | Inr m \<Rightarrow> f U c l queryExpr' (acc @ [m]))) = Some y"
    for f U c l q acc y
  proof (intro allI impI)
    fix found q'
    assume g: "global q" and y: "y = Inr (found, q')"
    show "\<exists>new. found = acc @ new \<and>
           (\<forall>i. lastIndex q \<le> i \<and> i \<le> length c \<and> matches_at q c i \<noteq> [] \<longrightarrow> ?Q U c l q new i)"
    proof (cases "match_from q c (lastIndex q)")
      case None
      with unf y g have "found = acc" by (simp add: exec_def)
      moreover from None have "\<forall>i. lastIndex q \<le> i \<and> i \<le> length c \<longrightarrow> matches_at q c i = []"
        by (simp add: match_from_None_iff)
      ultimately show ?thesis by auto
    next
      case (Some a)
      obtain j e cp where a: "a = (j, (e, cp))" by (cases a) auto
      let ?r = "result_of c j (e, cp)"
      let ?q1 = "q\<lparr>lastIndex := e\<rparr>"
      from match_from_Some[of q c "lastIndex q" j "(e, cp)"] Some a obtain rest where
        b: "lastIndex q \<le> j" "j \<le> length c" "matches_at q c j = (e, cp) # rest"
        and gap: "\<forall>k. lastIndex q \<le> k \<and> k < j \<longrightarrow> matches_at q c k = []" by auto
      from match_from_bounds[of q c "lastIndex q" j e cp] Some a
      have je: "j \<le> e" and el: "e \<le> length c" by simp_all
      have ex: "exec q c = (?q1, Some ?r)" using g Some a by (simp add: exec_def)
      have im: "is_match q c ?r" using b by (auto simp: is_match_def)
      have sp: "same_pattern q ?q1" by (simp add: same_pattern_def)
      have len: "index ?r = j" "length (matched ?r) = e - j"
        using el by (simp_all add: result_of_def substring_def)
      from unf ex y obtain m where lb: "loop_body U c l ?r = Inr m"
        and rec: "f U c l ?q1 (acc @ [m]) = Some (Inr (found, q'))"
        by (cases "loop_body U c l ?r") auto
      from ih[OF rec] g obtain new where
        n1: "found = (acc @ [m]) @ new"
        and n2: "\<forall>i. e \<le> i \<and> i \<le> length c \<and> matches_at ?q1 c i \<noteq> [] \<longrightarrow> ?Q U c l ?q1 new i"
        by auto
      have "?Q U c l q (m # new) i"
        if i: "lastIndex q \<le> i" "i \<le> length c" "matches_at q c i \<noteq> []" for i
      proof (cases "i < e")
        case True
        from gap i have "j \<le> i" by (meson not_le_imp_less)
        with True len have "covers ?r i" by (auto simp: covers_def)
        with im lb show ?thesis by auto
      next
        case False
        with i n2 same_pattern_matches_at[OF sp] have "?Q U c l ?q1 new i" by simp
        then show ?thesis using same_pattern_is_match[OF sp] by auto
      qed
      moreover from n1 have "found = acc @ (m # new)" by simp
      ultimately show ?thesis by blast
    qed
  qed
  have "?P U c l q acc (Inr (found, q'))"
    by (rule scan_loop.raw_induct[where P = ?P, OF step assms(1)])
  with assms(2) show ?thesis by blast
qed

lemma getQueryRegExp_global: "getQueryRegExp q = Inr re \<Longrightarrow> global re \<and> lastIndex re = 0"
proof -
  assume "getQueryRegExp q = Inr re"
  from getQueryRegExp_compiled[OF this] have "re = compiled (source re) (pattern re) (ignoreCase re)" .
  then have "global re = global (compiled (source re) (pattern re) (ignoreCase re))"
    and "lastIndex re = lastIndex (compiled (source re) (pattern re) (ignoreCase re))"
    by simp_all
  then show ?thesis by simp
qed

text \<open>A query of the shape without \<^verbatim>\<open>g\<close> among its flags is compiled with the flags \<^verbatim>\<open>g\<close> or
  \<^verbatim>\<open>ig\<close>, so the object that the extractor receives is global.\<close>

lemma global_flag_added:
  assumes "slash_shape q body flags" and "CHR ''g'' \<notin> set flags"
  shows "getQueryRegExp q = new_RegExp body (if flags = [] then ''g'' else ''ig'')"
proof -
  have "last flags \<noteq> CHR ''g''" if "flags \<noteq> []"
  proof
    assume "last flags = CHR ''g''"
    with last_in_set[OF that] have "CHR ''g'' \<in> set flags" by simp
    with assms(2) show False by simp
  qed
  then have "flags \<noteq> [] \<longrightarrow> last flags \<noteq> CHR ''g''" by blast
  with getQueryRegExp_shape[of q body flags] assms(1)
  show ?thesis by (cases "flags = []") simp_all
qed

text \<open>When the extractor returns an array for a compiled query, every position of the text
  where the pattern matches is covered by a reported match.\<close>

lemma getSearchMatches_covers:
  assumes c: "getQueryRegExp q = Inr re"
    and f: "getSearchMatches U contents re = Some (Inr (Some found, re'))"
  shows "\<forall>i\<le>length contents. matches_at re contents i \<noteq> [] \<longrightarrow>
           (\<exists>r m. m \<in> set found \<and> is_match re contents r \<and>
                  loop_body U contents (getLines U contents) r = Inr m \<and> covers r i)"
proof -
  from getQueryRegExp_global[OF c] have g: "global re" and l: "lastIndex re = 0" by simp_all
  from getSearchMatches_found[OF f]
  have "scan_loop U contents (getLines U contents) re [] = Some (Inr (found, re'))" .
  from scan_loop_complete[OF this g] l show ?thesis by simp
qed

text \<open>The extractor returns whenever the compiled pattern has no empty match in the text.\<close>

lemma getSearchMatches_returns:
  assumes c: "getQueryRegExp q = Inr re"
    and ne: "\<forall>i st rest. i \<le> length contents \<and> matches_at re contents i = st # rest \<longrightarrow> i < fst st"
  shows "\<exists>y. getSearchMatches U contents re = Some y"
proof -
  from getQueryRegExp_global[OF c] have g: "global re" by simp
  from scan_loop_terminates[OF g ne]
  obtain y where "scan_loop U contents (getLines U contents) re [] = Some y" by blast
  then show ?thesis
    by (cases y) (auto simp: getSearchMatches_def)
qed

text \<open>An empty match stops the scan from advancing: \<^verbatim>\<open>exec\<close> leaves \<^verbatim>\<open>lastIndex\<close> where the empty
  match is, and the next call finds the same match again.\<close>

lemma scan_loop_empty_match:
  assumes g: "global q" and m: "match_from q c (lastIndex q) = Some (i, (i, cp))"
    and body: "loop_body U c l (result_of c i (i, cp)) = Inr mm"
  shows "scan_loop U c l q acc = None"
proof -
  define q1 where "q1 = q\<lparr>lastIndex := i\<rparr>"
  have g1: "global q1" "lastIndex q1 = i" "q1\<lparr>lastIndex := i\<rparr> = q1"
    using g by (simp_all add: q1_def)
  from match_from_Some[OF m] obtain rest where
    il: "i \<le> length c" and at: "matches_at q c i = (i, cp) # rest" by auto
  have "matches_at q1 c i = (i, cp) # rest"
    using at by (simp add: matches_at_def q1_def)
  from match_from_here[OF il this] have m1: "match_from q1 c i = Some (i, (i, cp))" .
  have ex0: "exec q c = (q1, Some (result_of c i (i, cp)))"
    using g m by (simp add: exec_def q1_def)
  have ex1: "exec q1 c = (q1, Some (result_of c i (i, cp)))"
    using g1 m1 by (simp add: exec_def)
  from scan_loop_stuck[OF ex1 body]
  have "scan_loop U c l q1 (acc @ [mm]) = None" .
  then show ?thesis
    by (subst scan_loop.simps) (simp add: ex0 body)
qed

text \<open>
  Claim C3: for every query of the form \<^verbatim>\<open>/re/flags\<close> in which the \<^verbatim>\<open>g\<close> flag is omitted
  (for example \<^verbatim>\<open>/a/i\<close>) the compiler adds the global flag, so that on a text with several
  occurrences the extractor returns all of them: for the text \<^verbatim>\<open>AAA\<close> and the query
  \<^verbatim>\<open>/a/i\<close> it returns 3 matches, not 1.

  The scenario evaluates to the three matches. The query \<^verbatim>\<open>/a*/i\<close> omits \<^verbatim>\<open>g\<close> too and is
  compiled to a global pattern, but on the same text the extractor returns nothing at all:
  after the match \<^verbatim>\<open>AAA\<close> the pattern matches the empty string at offset 3, and the loop
  finds that match for ever.
\<close>

theorem star_query_never_returns:
  "getQueryRegExp ''/a/i'' = Inr (compiled ''a'' (Seq (Chr CHR ''a'') Empty) True)
   \<and> getSearchMatches StringUtils ''AAA'' (compiled ''a'' (Seq (Chr CHR ''a'') Empty) True) =
       Some (Inr (Some [\<lparr>m_start = \<lparr>line = 0, ch = 0\<rparr>, m_end = \<lparr>line = 0, ch = 1\<rparr>, m_line = ''AAA''\<rparr>,
                        \<lparr>m_start = \<lparr>line = 0, ch = 1\<rparr>, m_end = \<lparr>line = 0, ch = 2\<rparr>, m_line = ''AAA''\<rparr>,
                        \<lparr>m_start = \<lparr>line = 0, ch = 2\<rparr>, m_end = \<lparr>line = 0, ch = 3\<rparr>, m_line = ''AAA''\<rparr>],
                  compiled ''a'' (Seq (Chr CHR ''a'') Empty) True))
   \<and> getQueryRegExp ''/a*/i'' = Inr (compiled ''a*'' (Seq (Star (Chr CHR ''a'')) Empty) True)
   \<and> global (compiled ''a*'' (Seq (Star (Chr CHR ''a'')) Empty) True)
   \<and> getSearchMatches StringUtils ''AAA''
         (compiled ''a*'' (Seq (Star (Chr CHR ''a'')) Empty) True) = None"
proof -
  define R where "R = compiled ''a*'' (Seq (Star (Chr CHR ''a'')) Empty) True"
  define R1 where "R1 = R\<lparr>lastIndex := 3\<rparr>"
  have c: "getQueryRegExp ''/a*/i'' = Inr R" unfolding R_def by code_simp
  have g: "global R" "lastIndex R = 0" "global R1" "lastIndex R1 = 3"
    by (simp_all add: R_def R1_def)
  have up: "canonicalize True CHR ''A'' = canonicalize True CHR ''a''"
    by (simp add: canonicalize_def toUpperCase_char_def lower_latin1_def upper_latin1_def)
  have s3: "ms True False (Star (Chr CHR ''a'')) ''AAA'' (Suc (Suc (Suc 0)), Map.empty) =
              [(Suc (Suc (Suc 0)), Map.empty)]"
    by (subst ms_Star) simp
  have s2: "ms True False (Star (Chr CHR ''a'')) ''AAA'' (Suc (Suc 0), Map.empty) =
              [(Suc (Suc (Suc 0)), Map.empty), (Suc (Suc 0), Map.empty)]"
    by (subst ms_Star) (simp add: up s3)
  have s1: "ms True False (Star (Chr CHR ''a'')) ''AAA'' (Suc 0, Map.empty) =
              [(Suc (Suc (Suc 0)), Map.empty), (Suc (Suc 0), Map.empty), (Suc 0, Map.empty)]"
    by (subst ms_Star) (simp add: up s2)
  have s0: "ms True False (Star (Chr CHR ''a'')) ''AAA'' (0, Map.empty) =
              [(Suc (Suc (Suc 0)), Map.empty), (Suc (Suc 0), Map.empty), (Suc 0, Map.empty),
               (0, Map.empty)]"
    by (subst ms_Star) (simp add: up s1)
  have three: "(3 :: nat) = Suc (Suc (Suc 0))" by simp
  have a3: "matches_at R ''AAA'' 3 = [(3, Map.empty)]"
    unfolding three by (simp add: matches_at_def R_def s3)
  have a0: "matches_at R ''AAA'' 0 = (3, Map.empty) # [(2, Map.empty), (1, Map.empty), (0, Map.empty)]"
    by (simp add: matches_at_def R_def s0)
  have m0: "match_from R ''AAA'' 0 = Some (0, (3, Map.empty))"
    by (rule match_from_here) (simp_all add: a0)
  have "matches_at R1 ''AAA'' 3 = [(3, Map.empty)]"
    using a3 by (simp add: matches_at_def R1_def)
  then have m1: "match_from R1 ''AAA'' (lastIndex R1) = Some (3, (3, Map.empty))"
    unfolding g by (intro match_from_here) simp_all
  have lines: "StringUtils_getLines ''AAA'' = [''AAA'']" by simp
  have ex0: "exec R ''AAA'' = (R1, Some (result_of ''AAA'' 0 (3, Map.empty)))"
    by (simp add: exec_def g m0 R1_def)
  have "\<exists>mm. loop_body StringUtils ''AAA'' [''AAA''] (result_of ''AAA'' 0 (3, Map.empty)) = Inr mm"
    by (simp add: loop_body_def StringUtils_def result_of_def Let_def)
  then obtain m0' where lb0:
    "loop_body StringUtils ''AAA'' [''AAA''] (result_of ''AAA'' 0 (3, Map.empty)) = Inr m0'" ..
  have "\<exists>mm. loop_body StringUtils ''AAA'' [''AAA''] (result_of ''AAA'' 3 (3, Map.empty)) = Inr mm"
    by (simp add: loop_body_def StringUtils_def result_of_def Let_def)
  then obtain m1' where lb1:
    "loop_body StringUtils ''AAA'' [''AAA''] (result_of ''AAA'' 3 (3, Map.empty)) = Inr m1'" ..
  from scan_loop_empty_match[OF g(3) m1 lb1]
  have "scan_loop StringUtils ''AAA'' [''AAA''] R1 ([] @ [m0']) = None" .
  then have "scan_loop StringUtils ''AAA'' [''AAA''] R [] = None"
    by (subst scan_loop.simps) (simp add: ex0 lb0)
  moreover have "search ''AAA'' R \<noteq> - 1" by (simp add: search_def m0)
  ultimately have "getSearchMatches StringUtils ''AAA'' R = None"
    by (simp add: getSearchMatches_def StringUtils_def)
  moreover have "getQueryRegExp ''/a/i'' = Inr (compiled ''a'' (Seq (Chr CHR ''a'') Empty) True)"
    by code_simp
  moreover have
    "getSearchMatches StringUtils ''AAA'' (compiled ''a'' (Seq (Chr CHR ''a'') Empty) True) =
       Some (Inr (Some [\<lparr>m_start = \<lparr>line = 0, ch = 0\<rparr>, m_end = \<lparr>line = 0, ch = 1\<rparr>, m_line = ''AAA''\<rparr>,
                        \<lparr>m_start = \<lparr>line = 0, ch = 1\<rparr>, m_end = \<lparr>line = 0, ch = 2\<rparr>, m_line = ''AAA''\<rparr>,
                        \<lparr>m_start = \<lparr>line = 0, ch = 2\<rparr>, m_end = \<lparr>line = 0, ch = 3\<rparr>, m_line = ''AAA''\<rparr>],
                  compiled ''a'' (Seq (Chr CHR ''a'') Empty) True))"
    by code_simp
  ultimately show ?thesis using c g(1) unfolding R_def by simp
qed

section \<open>Lines, columns and excerpts\<close>















lemma substring_one:
  "substring s k (Suc k + 0) = [a] \<longleftrightarrow> k < length s \<and> s ! k = a"
proof (cases "k < length s")
  case True
  then have "drop k s = s ! k # drop (Suc k) s" by (simp add: Cons_nth_drop_Suc)
  with True show ?thesis by (simp add: substring_def)
next
  case False
  then show ?thesis by (simp add: substring_def)
qed

lemma lastIndexOf_upto_char:
  "k < length s \<Longrightarrow>
   lastIndexOf_upto s [a] k =
     int k - int (length (takeWhile (\<lambda>c. c \<noteq> a) (rev (take (Suc k) s))))"
proof (induction k)
  case 0
  then obtain x xs where "s = x # xs" by (cases s) auto
  then show ?case by (simp add: substring_def)
next
  case (Suc k)
  then have k: "k < length s" by simp
  have t: "rev (take (Suc (Suc k)) s) = s ! Suc k # rev (take (Suc k) s)"
    using Suc.prems by (simp add: take_Suc_conv_app_nth)
  have o: "substring s (Suc k) (Suc k + length [a]) = [a] \<longleftrightarrow> s ! Suc k = a"
    using substring_one[of s "Suc k" a] Suc.prems by simp
  show ?case
  proof (cases "s ! Suc k = a")
    case True
    with o t show ?thesis by simp
  next
    case False
    with o t Suc.IH[OF k] show ?thesis by simp
  qed
qed

text \<open>The column that the loop computes for a match at offset \<open>i\<close>: the number of characters
  since the last line break before \<open>i\<close>, unless the text has a line break at \<open>i\<close> itself.\<close>

lemma column_of_offset:
  assumes "i < length s"
  shows "int i - lastIndexOf s [newline] i - 1 =
           (if s ! i = newline then - 1
            else int (length (takeWhile (\<lambda>c. c \<noteq> newline) (rev (take i s)))))"
proof -
  from assms have "s \<noteq> []" and "min i (length s - 1) = i" by auto
  then have "lastIndexOf s [newline] i = lastIndexOf_upto s [newline] i"
    by (simp add: lastIndexOf_def)
  moreover have "rev (take (Suc i) s) = s ! i # rev (take i s)"
    using assms by (simp add: take_Suc_conv_app_nth)
  ultimately show ?thesis using lastIndexOf_upto_char[OF assms, of newline] by simp
qed













end
